theory Spec2Isabelle
  imports Complex_Main "HOL-Library.Monad_Syntax"
begin

section \<open>Data model (src/types/FloorPlan.ts)\<close>

text \<open>
  A \<open>Point\<close> is the object \<open>{x, y}\<close>. Every point the pipeline creates has integer
  coordinates (loop counters and their sums with \<open>dx, dy \<in> {-1,0,1}\<close>), so a point is a
  pair of integers: \<open>fst\<close> is \<open>x\<close>, \<open>snd\<close> is \<open>y\<close>. JavaScript numbers are modelled by
  exact integers and reals throughout.
\<close>

type_synonym Point = "int \<times> int"

datatype ContourType = wall | door | window | room

record Contour =
  points :: "Point list"
  area :: real
  type :: ContourType

text \<open>The object returned by \<open>classifyContours\<close>: the four category lists.\<close>

record Classified =
  walls :: "Contour list"
  doors :: "Contour list"
  windows :: "Contour list"
  rooms :: "Contour list"

text \<open>
  The object returned by \<open>getBounds\<close>. Its \<open>width\<close> and \<open>height\<close> fields are named
  \<open>bwidth\<close> and \<open>bheight\<close> here, apart from the fields of \<open>ImageData\<close>.
\<close>

record Bounds =
  minX :: int
  maxX :: int
  minY :: int
  maxY :: int
  bwidth :: int
  bheight :: int

section \<open>Classifier (ImageProcessor.calculateArea, getBounds, classifyContours)\<close>

text \<open>
  \<open>calculateArea\<close>: the loop over \<open>i = 0 .. length - 1\<close> with \<open>j = (i + 1) % length\<close>
  adds \<open>points[i].x * points[j].y\<close> and subtracts \<open>points[j].x * points[i].y\<close>.
\<close>

definition areaStep :: "Point list \<Rightarrow> nat \<Rightarrow> int \<Rightarrow> int" where
  "areaStep ps i a =
     (let j = (i + 1) mod length ps
      in (a + fst (ps ! i) * snd (ps ! j)) - fst (ps ! j) * snd (ps ! i))"

definition calculateArea :: "Point list \<Rightarrow> real" where
  "calculateArea ps =
     (if length ps < 3 then 0
      else real_of_int \<bar>fold (areaStep ps) [0..<length ps] 0\<bar> / 2)"

text \<open>
  \<open>getBounds\<close>: \<open>Math.min(...xs)\<close> and \<open>Math.max(...xs)\<close> over the coordinates. On an
  empty list JavaScript yields \<open>Infinity\<close> and \<open>-Infinity\<close>; the model's value there is
  not specified. \<open>classifyContours\<close> does not depend on it: a list of fewer than three
  points has area 0 and takes no branch (lemma \<open>classifyStep_short\<close>).
\<close>

definition getBounds :: "Point list \<Rightarrow> Bounds" where
  "getBounds ps =
     (let xs = map fst ps; ys = map snd ps;
          mnX = Min (set xs); mxX = Max (set xs);
          mnY = Min (set ys); mxY = Max (set ys)
      in \<lparr>minX = mnX, maxX = mxX, minY = mnY, maxY = mxY,
          bwidth = mxX - mnX, bheight = mxY - mnY\<rparr>)"

text \<open>The body of the loop \<open>for (const points of contours)\<close> in \<open>classifyContours\<close>.\<close>

definition classifyStep :: "int \<Rightarrow> int \<Rightarrow> Point list \<Rightarrow> Classified \<Rightarrow> Classified" where
  "classifyStep w h pts acc =
     (let a = calculateArea pts;
          bounds = getBounds pts;
          aspect = real_of_int (bwidth bounds) / (real_of_int (bheight bounds) + 1 / 10 ^ 9)
      in if a > 5000 then
           (let touchesBoundary =
                  (minX bounds \<le> 5 \<or> minY bounds \<le> 5 \<or>
                   maxX bounds \<ge> w - 5 \<or> maxY bounds \<ge> h - 5)
            in if touchesBoundary \<or> aspect > 3 \<or> aspect < 33 / 100
               then acc\<lparr>walls := walls acc @ [\<lparr>points = pts, area = a, type = wall\<rparr>]\<rparr>
               else acc\<lparr>rooms := rooms acc @ [\<lparr>points = pts, area = a, type = room\<rparr>]\<rparr>)
         else if a > 1000 \<and> a \<le> 5000 then
           (if aspect > 4 / 10 \<and> aspect < 25 / 10
            then acc\<lparr>doors := doors acc @ [\<lparr>points = pts, area = a, type = door\<rparr>]\<rparr>
            else acc\<lparr>walls := walls acc @ [\<lparr>points = pts, area = a, type = wall\<rparr>]\<rparr>)
         else if a > 200 \<and> a \<le> 1000 then
           (if aspect > 2 \<or> aspect < 5 / 10
            then acc\<lparr>windows := windows acc @ [\<lparr>points = pts, area = a, type = window\<rparr>]\<rparr>
            else acc)
         else acc)"

definition classifyContours :: "Point list list \<Rightarrow> int \<Rightarrow> int \<Rightarrow> Classified" where
  "classifyContours contours w h =
     fold (classifyStep w h) contours \<lparr>walls = [], doors = [], windows = [], rooms = []\<rparr>"

subsection \<open>The specification's wording of the Classifier\<close>

text \<open>
  The signed shoelace area of a point sequence, as the specification names it: half the
  sum of \<open>x\<^sub>i * y\<^sub>i\<^sub>+\<^sub>1 - x\<^sub>i\<^sub>+\<^sub>1 * y\<^sub>i\<close> around the closed sequence.
\<close>

definition shoelace :: "Point list \<Rightarrow> real" where
  "shoelace ps =
     real_of_int (\<Sum>i<length ps.
        fst (ps ! i) * snd (ps ! ((i + 1) mod length ps)) -
        fst (ps ! ((i + 1) mod length ps)) * snd (ps ! i)) / 2"

text \<open>
  The decision table of the specification (section 4.4), on the absolute area \<open>A\<close>, the
  aspect ratio and the boundary-touching flag; \<open>None\<close> is "dropped".
\<close>

definition decisionTable :: "real \<Rightarrow> real \<Rightarrow> bool \<Rightarrow> ContourType option" where
  "decisionTable A aspect touching =
     (if A > 5000 then
        (if touching \<or> aspect > 3 \<or> aspect < 33 / 100 then Some wall else Some room)
      else if 1000 < A \<and> A \<le> 5000 then
        (if 4 / 10 < aspect \<and> aspect < 25 / 10 then Some door else Some wall)
      else if 200 < A \<and> A \<le> 1000 then
        (if aspect > 2 \<or> aspect < 5 / 10 then Some window else None)
      else None)"

definition aspectOf :: "Point list \<Rightarrow> real" where
  "aspectOf ps =
     real_of_int (bwidth (getBounds ps)) / (real_of_int (bheight (getBounds ps)) + 1 / 10 ^ 9)"

text \<open>Boundary-touching: the bounds come within 5px of an edge of the \<open>w \<times> h\<close> image.\<close>

definition boundaryTouching :: "int \<Rightarrow> int \<Rightarrow> Point list \<Rightarrow> bool" where
  "boundaryTouching w h ps =
     (minX (getBounds ps) \<le> 5 \<or> minY (getBounds ps) \<le> 5 \<or>
      maxX (getBounds ps) \<ge> w - 5 \<or> maxY (getBounds ps) \<ge> h - 5)"

definition tableOf :: "int \<Rightarrow> int \<Rightarrow> Point list \<Rightarrow> ContourType option" where
  "tableOf w h ps = decisionTable (calculateArea ps) (aspectOf ps) (boundaryTouching w h ps)"

definition mkContour :: "ContourType \<Rightarrow> Point list \<Rightarrow> Contour" where
  "mkContour t ps = \<lparr>points = ps, area = calculateArea ps, type = t\<rparr>"

definition ofType :: "int \<Rightarrow> int \<Rightarrow> ContourType \<Rightarrow> Point list list \<Rightarrow> Contour list" where
  "ofType w h t cs = map (mkContour t) (filter (\<lambda>ps. tableOf w h ps = Some t) cs)"

subsection \<open>Point sequences for the literal cases of the specification\<close>

text \<open>
  Closed point sequences with a given shoelace area and bounding box: a rectangle walked
  several times. \<open>wallPoly\<close> has area 6000 in a 100x10 box, \<open>doorPoly\<close> area 2000 in a
  40x30 box, \<open>windowPoly\<close> area 500 in a 5x20 box, \<open>dropPoly\<close> area 500 in a 15x15 box.
\<close>

definition rect :: "int \<Rightarrow> int \<Rightarrow> int \<Rightarrow> int \<Rightarrow> Point list" where
  "rect x0 y0 w h = [(x0, y0), (x0 + w, y0), (x0 + w, y0 + h), (x0, y0 + h)]"


definition doorPoly :: "Point list" where
  "doorPoly = rect 50 50 40 30 @ rect 50 50 40 20"



section \<open>Images (the browser's ImageData)\<close>

text \<open>
  An \<open>ImageData\<close> object: \<open>width\<close>, \<open>height\<close> and the \<open>Uint8ClampedArray\<close> \<open>data\<close>
  of RGBA bytes, four per pixel in row-major order. The platform only builds objects with
  positive dimensions and \<open>4 * width * height\<close> bytes, each in \<open>0..255\<close>.
\<close>

record ImageData =
  width :: int
  height :: int
  data :: "int list"

definition wfImageData :: "ImageData \<Rightarrow> bool" where
  "wfImageData img =
     (0 < width img \<and> 0 < height img \<and>
      int (length (data img)) = 4 * width img * height img)"

text \<open>
  Reading \<open>data[i]\<close>: out of range, a typed array yields \<open>undefined\<close> (\<open>None\<close>).
  Writing \<open>data[i] = v\<close>: out of range, the write is ignored. The values written by
  \<open>detectEdges\<close> are 0 and 255, which the clamped array stores unchanged.
\<close>

definition byteAt :: "int list \<Rightarrow> int \<Rightarrow> int option" where
  "byteAt d i = (if 0 \<le> i \<and> i < int (length d) then Some (d ! nat i) else None)"

definition setByte :: "int list \<Rightarrow> int \<Rightarrow> int \<Rightarrow> int list" where
  "setByte d i v = (if 0 \<le> i \<and> i < int (length d) then d[nat i := v] else d)"

section \<open>Edge Detector (ImageProcessor.getGray, detectEdges)\<close>

text \<open>
  \<open>getGray\<close>: \<open>(data[idx] + data[idx + 1] + data[idx + 2]) / 3\<close>. A sum with
  \<open>undefined\<close> is \<open>NaN\<close>, and \<open>NaN\<close> propagates through the arithmetic below: it
  is \<open>None\<close> here.
\<close>

definition getGray :: "int list \<Rightarrow> int \<Rightarrow> int \<Rightarrow> int \<Rightarrow> real option" where
  "getGray d x y w =
     (let idx = (y * w + x) * 4
      in do {
        r \<leftarrow> byteAt d idx;
        g \<leftarrow> byteAt d (idx + 1);
        b \<leftarrow> byteAt d (idx + 2);
        Some (real_of_int (r + g + b) / 3)
      })"

definition sobelGx :: "int list \<Rightarrow> int \<Rightarrow> int \<Rightarrow> int \<Rightarrow> real option" where
  "sobelGx d x y w =
     do {
       a \<leftarrow> getGray d (x - 1) (y - 1) w;
       b \<leftarrow> getGray d (x + 1) (y - 1) w;
       c \<leftarrow> getGray d (x - 1) y w;
       e \<leftarrow> getGray d (x + 1) y w;
       f \<leftarrow> getGray d (x - 1) (y + 1) w;
       g \<leftarrow> getGray d (x + 1) (y + 1) w;
       Some (- 1 * a + 1 * b + - 2 * c + 2 * e + - 1 * f + 1 * g)
     }"

definition sobelGy :: "int list \<Rightarrow> int \<Rightarrow> int \<Rightarrow> int \<Rightarrow> real option" where
  "sobelGy d x y w =
     do {
       a \<leftarrow> getGray d (x - 1) (y - 1) w;
       b \<leftarrow> getGray d x (y - 1) w;
       c \<leftarrow> getGray d (x + 1) (y - 1) w;
       e \<leftarrow> getGray d (x - 1) (y + 1) w;
       f \<leftarrow> getGray d x (y + 1) w;
       g \<leftarrow> getGray d (x + 1) (y + 1) w;
       Some (- 1 * a + - 2 * b + - 1 * c + 1 * e + 2 * f + 1 * g)
     }"

text \<open>
  \<open>magnitude = Math.sqrt(gx * gx + gy * gy)\<close> and
  \<open>edgeValue = magnitude > 50 ? 255 : 0\<close>; a comparison with \<open>NaN\<close> is false.
\<close>

definition magnitudeAt :: "int list \<Rightarrow> int \<Rightarrow> int \<Rightarrow> int \<Rightarrow> real option" where
  "magnitudeAt d x y w =
     do {
       gx \<leftarrow> sobelGx d x y w;
       gy \<leftarrow> sobelGy d x y w;
       Some (sqrt (gx * gx + gy * gy))
     }"

definition edgeValueAt :: "int list \<Rightarrow> int \<Rightarrow> int \<Rightarrow> int \<Rightarrow> int" where
  "edgeValueAt d x y w =
     (case magnitudeAt d x y w of
        Some magnitude \<Rightarrow> if magnitude > 50 then 255 else 0
      | None \<Rightarrow> 0)"

text \<open>The body of the inner loop of \<open>detectEdges\<close>: the four writes at \<open>idx\<close>.\<close>

definition detectEdgesPixel :: "int list \<Rightarrow> int \<Rightarrow> int \<Rightarrow> int \<Rightarrow> int list \<Rightarrow> int list" where
  "detectEdgesPixel d w y x e =
     (let idx = (y * w + x) * 4;
          edgeValue = edgeValueAt d x y w
      in setByte (setByte (setByte (setByte e idx edgeValue) (idx + 1) edgeValue)
           (idx + 2) edgeValue) (idx + 3) 255)"

text \<open>
  \<open>detectEdges\<close>: \<open>new ImageData(width, height)\<close> is all zero; the loops run over
  \<open>y = 1 .. height - 2\<close> and \<open>x = 1 .. width - 2\<close>.
\<close>

definition detectEdges :: "ImageData \<Rightarrow> ImageData" where
  "detectEdges imageData =
     (let d = data imageData;
          w = width imageData;
          h = height imageData;
          edges = replicate (nat (4 * w * h)) 0
      in \<lparr>width = w, height = h,
          data = fold (\<lambda>y e. fold (detectEdgesPixel d w y) [1..w - 2] e) [1..h - 2] edges\<rparr>)"

subsection \<open>The specification's wording of the Edge Detector\<close>






text \<open>
  The interior of an image: the pixels that are not in its 1-pixel border margin, that
  is \<open>1 \<le> x \<le> width - 2\<close> and \<open>1 \<le> y \<le> height - 2\<close>.
\<close>

definition interior :: "ImageData \<Rightarrow> Point \<Rightarrow> bool" where
  "interior img p =
     (1 \<le> fst p \<and> fst p \<le> width img - 2 \<and> 1 \<le> snd p \<and> snd p \<le> height img - 2)"

section \<open>Region Tracer (ImageProcessor.findContours, traceContour)\<close>

text \<open>The test \<open>edges.data[idx] > 128\<close> at \<open>idx = (y * width + x) * 4\<close>.\<close>

definition isEdgePixel :: "ImageData \<Rightarrow> Point \<Rightarrow> bool" where
  "isEdgePixel edges p =
     (case byteAt (data edges) ((snd p * width edges + fst p) * 4) of
        Some v \<Rightarrow> v > 128
      | None \<Rightarrow> False)"

text \<open>
  The neighbour loops \<open>for dy = -1 .. 1\<close>, \<open>for dx = -1 .. 1\<close>, in their order. The stack
  is kept top first: \<open>push\<close> is \<open>#\<close> and \<open>pop\<close> takes the head. The visited set of
  string keys \<open>"x,y"\<close> is a set of points.
\<close>

definition offsets :: "(int \<times> int) list" where
  "offsets = concat (map (\<lambda>dy. map (\<lambda>dx. (dx, dy)) [- 1, 0, 1]) [- 1, 0, 1])"

definition pushNeighbour ::
  "ImageData \<Rightarrow> Point \<Rightarrow> Point set \<Rightarrow> int \<times> int \<Rightarrow> Point list \<Rightarrow> Point list" where
  "pushNeighbour edges point visited d stack =
     (let nx = fst point + fst d; ny = snd point + snd d
      in if nx \<ge> 0 \<and> nx < width edges \<and> ny \<ge> 0 \<and> ny < height edges
         then (if (nx, ny) \<notin> visited then (nx, ny) # stack else stack)
         else stack)"

definition pushNeighbours :: "ImageData \<Rightarrow> Point \<Rightarrow> Point set \<Rightarrow> Point list \<Rightarrow> Point list" where
  "pushNeighbours edges point visited stack =
     fold (pushNeighbour edges point visited) offsets stack"

text \<open>
  The points that can push a neighbour lie in this box; it bounds the number of
  iterations of the loop below.
\<close>

definition traceBox :: "ImageData \<Rightarrow> Point set" where
  "traceBox edges = {- 1..width edges} \<times> {- 1..height edges}"

lemma offsets_abs: "d \<in> set offsets \<Longrightarrow> \<bar>fst d\<bar> \<le> 1 \<and> \<bar>snd d\<bar> \<le> 1"
  by (auto simp: offsets_def)

lemma fold_unchanged: "(\<And>d s. d \<in> set ds \<Longrightarrow> f d s = s) \<Longrightarrow> fold f ds st = st"
  by (induction ds arbitrary: st) simp_all

lemma pushNeighbour_outside:
  assumes "p \<notin> traceBox e" "d \<in> set offsets"
  shows "pushNeighbour e p v d st = st"
proof -
  have "\<bar>fst d\<bar> \<le> 1 \<and> \<bar>snd d\<bar> \<le> 1"
    using assms(2) by (rule offsets_abs)
  moreover have "\<not> (- 1 \<le> fst p \<and> fst p \<le> width e \<and> - 1 \<le> snd p \<and> snd p \<le> height e)"
    using assms(1) by (cases p) (simp add: traceBox_def)
  ultimately show ?thesis
    unfolding pushNeighbour_def Let_def by (simp; linarith)
qed

lemma pushNeighbours_outside: "p \<notin> traceBox e \<Longrightarrow> pushNeighbours e p v st = st"
  unfolding pushNeighbours_def by (rule fold_unchanged) (rule pushNeighbour_outside)

text \<open>
  The loop \<open>while (stack.length > 0 && contour.length < 1000)\<close> of \<open>traceContour\<close>, on
  the state (stack, contour, visited); it returns the state at which the loop stops.
\<close>

function traceLoop :: "ImageData \<Rightarrow> Point list \<Rightarrow> Point list \<Rightarrow> Point set
    \<Rightarrow> Point list \<times> Point list \<times> Point set" where
  "traceLoop edges stack contour visited =
     (case stack of
        [] \<Rightarrow> (stack, contour, visited)
      | point # rest \<Rightarrow>
          if \<not> length contour < 1000 then (stack, contour, visited)
          else if point \<in> visited then traceLoop edges rest contour visited
          else if isEdgePixel edges point
          then traceLoop edges (pushNeighbours edges point (insert point visited) rest)
                 (contour @ [point]) (insert point visited)
          else traceLoop edges rest contour (insert point visited))"
  by pat_completeness auto
termination
proof (relation "(\<lambda>(e, st, c, v). card (traceBox e - v)) <*mlex*>
                   measure (\<lambda>(e, st, c, v). length st)")
  show "wf ((\<lambda>(e, st, c, v). card (traceBox e - v)) <*mlex*>
            measure (\<lambda>(e, st, c, v). length st))"
    by (simp add: wf_mlex)
next
  fix edges :: ImageData and stack contour :: "Point list" and visited :: "Point set"
    and point rest
  assume "stack = point # rest"
  then show "((edges, rest, contour, visited), edges, stack, contour, visited)
       \<in> (\<lambda>(e, st, c, v). card (traceBox e - v)) <*mlex*>
          measure (\<lambda>(e, st, c, v). length st)"
    by (simp add: mlex_iff)
next
  fix edges :: ImageData and stack contour :: "Point list" and visited :: "Point set"
    and point rest
  assume st: "stack = point # rest" and nv: "point \<notin> visited"
  have fin: "finite (traceBox edges - visited)"
    by (simp add: traceBox_def)
  have le: "card (traceBox edges - insert point visited) \<le> card (traceBox edges - visited)"
    by (rule card_mono[OF fin]) auto
  have eq: "point \<notin> traceBox edges \<Longrightarrow>
      traceBox edges - insert point visited = traceBox edges - visited"
    by auto
  show "((edges, pushNeighbours edges point (insert point visited) rest,
          contour @ [point], insert point visited),
         edges, stack, contour, visited)
       \<in> (\<lambda>(e, st, c, v). card (traceBox e - v)) <*mlex*>
          measure (\<lambda>(e, st, c, v). length st)"
  proof (cases "point \<in> traceBox edges")
    case True
    have "traceBox edges - insert point visited \<subset> traceBox edges - visited"
      using True nv by auto
    then have "card (traceBox edges - insert point visited) < card (traceBox edges - visited)"
      by (rule psubset_card_mono[OF fin])
    then show ?thesis
      unfolding mlex_iff by simp
  next
    case False
    have "pushNeighbours edges point (insert point visited) rest = rest"
      using False by (rule pushNeighbours_outside)
    then show ?thesis
      unfolding mlex_iff using eq[OF False] st by simp
  qed
  show "((edges, rest, contour, insert point visited), edges, stack, contour, visited)
       \<in> (\<lambda>(e, st, c, v). card (traceBox e - v)) <*mlex*>
          measure (\<lambda>(e, st, c, v). length st)"
    unfolding mlex_iff using le st by auto
qed

declare traceLoop.simps [simp del]

text \<open>
  \<open>traceContour\<close> starts the loop with the start point on the stack and an empty contour.
  It returns the contour; the visited set it has mutated is returned with it.
\<close>

definition traceContour :: "ImageData \<Rightarrow> int \<Rightarrow> int \<Rightarrow> Point set \<Rightarrow> Point list \<times> Point set" where
  "traceContour edges startX startY visited =
     (case traceLoop edges [(startX, startY)] [] visited of
        (stack, contour, visited') \<Rightarrow> (contour, visited'))"

text \<open>
  The body of the inner loop of \<open>findContours\<close> at pixel \<open>(x, y)\<close>, on the state
  (contours, visited).
\<close>

definition scanPixel ::
  "ImageData \<Rightarrow> int \<Rightarrow> int \<Rightarrow> Point list list \<times> Point set \<Rightarrow> Point list list \<times> Point set" where
  "scanPixel edges y x s =
     (case s of (contours, visited) \<Rightarrow>
        if (x, y) \<in> visited then s
        else if isEdgePixel edges (x, y) then
          (case traceContour edges x y visited of
             (contour, visited') \<Rightarrow>
               if length contour > 10 then (contours @ [contour], visited')
               else (contours, visited'))
        else s)"

definition scanAll :: "ImageData \<Rightarrow> Point list list \<times> Point set" where
  "scanAll edges =
     fold (\<lambda>y s. fold (scanPixel edges y) [0..width edges - 1] s) [0..height edges - 1] ([], {})"

definition findContours :: "ImageData \<Rightarrow> Point list list" where
  "findContours edges = fst (scanAll edges)"

subsection \<open>The specification's wording of the Region Tracer\<close>

text \<open>
  A pixel is in bounds when it lies in the \<open>width \<times> height\<close> image; the edge pixels of a
  mask are its in-bounds pixels that pass the edge test. Two points are \<open>adjacent\<close> when
  they are 8-neighbours (or equal). The 8-connected component of an edge pixel is what
  is reachable from it through adjacent edge pixels. A set of points is closed when no
  edge adjacency leaves it; \<open>bigComponents e v\<close> are the components, of more than 10
  pixels, of the edge pixels in \<open>v\<close>.
\<close>

definition inBounds :: "ImageData \<Rightarrow> Point \<Rightarrow> bool" where
  "inBounds edges p = (0 \<le> fst p \<and> fst p < width edges \<and> 0 \<le> snd p \<and> snd p < height edges)"

definition adjacent :: "Point \<Rightarrow> Point \<Rightarrow> bool" where
  "adjacent p q = (\<bar>fst p - fst q\<bar> \<le> 1 \<and> \<bar>snd p - snd q\<bar> \<le> 1)"

definition edgeSet :: "ImageData \<Rightarrow> Point set" where
  "edgeSet edges = {p. inBounds edges p \<and> isEdgePixel edges p}"

definition adjIn :: "Point set \<Rightarrow> (Point \<times> Point) set" where
  "adjIn B = {(p, q). p \<in> B \<and> q \<in> B \<and> adjacent p q}"

definition edgeAdj :: "ImageData \<Rightarrow> (Point \<times> Point) set" where
  "edgeAdj edges = adjIn (edgeSet edges)"

definition component :: "ImageData \<Rightarrow> Point \<Rightarrow> Point set" where
  "component edges p = (edgeAdj edges)\<^sup>* `` {p}"

definition closedUnder :: "ImageData \<Rightarrow> Point set \<Rightarrow> bool" where
  "closedUnder e v = (\<forall>p q. p \<in> v \<and> (p, q) \<in> edgeAdj e \<longrightarrow> q \<in> v)"

definition bigComponents :: "ImageData \<Rightarrow> Point set \<Rightarrow> Point set set" where
  "bigComponents e v = component e ` {p \<in> v \<inter> edgeSet e. 10 < card (component e p)}"

text \<open>A set of points is 8-connected when any two of its points are joined by a path of
  adjacent points inside it.\<close>

definition connected8 :: "Point set \<Rightarrow> bool" where
  "connected8 B = (\<forall>p\<in>B. \<forall>q\<in>B. (p, q) \<in> (adjIn B)\<^sup>*)"

subsection \<open>Concrete masks\<close>

text \<open>
  \<open>maskOf w h P\<close> is the \<open>w \<times> h\<close> mask whose pixel \<open>(x, y)\<close> is white (an edge pixel) when
  \<open>P (x, y)\<close> and black otherwise. \<open>lineMask\<close> is one row of 1001 edge pixels,
  \<open>shortLine\<close> one row of 12, \<open>tinyLine\<close> one row of 3; \<open>twoBlobs\<close> has a row of 50
  edge pixels and, two rows below, a row of 5.
\<close>

definition maskOf :: "int \<Rightarrow> int \<Rightarrow> (Point \<Rightarrow> bool) \<Rightarrow> ImageData" where
  "maskOf w h P =
     \<lparr>width = w, height = h,
      data = concat (map (\<lambda>i. if P (int i mod w, int i div w)
                               then [255, 255, 255, 255] else [0, 0, 0, 255])
                    [0..<nat (w * h)])\<rparr>"

definition lineMask :: ImageData where
  "lineMask = maskOf 1001 1 (\<lambda>p. True)"

definition shortLine :: ImageData where
  "shortLine = maskOf 12 1 (\<lambda>p. True)"

definition tinyLine :: ImageData where
  "tinyLine = maskOf 3 1 (\<lambda>p. True)"

definition twoBlobs :: ImageData where
  "twoBlobs = maskOf 50 3 (\<lambda>p. snd p = 0 \<or> (snd p = 2 \<and> fst p < 5))"

text \<open>
  \<open>stripes\<close> is a 14x3 picture, read as an RGBA image: two black rows above a white row.
\<close>

definition stripes :: ImageData where
  "stripes = maskOf 14 3 (\<lambda>p. snd p = 2)"

section \<open>Rasterizer and entry point (ImageProcessor.processImage, analyzeFloorPlan)\<close>

text \<open>
  \<open>processImage\<close> rejects its promise with \<open>new Error('Failed to load image')\<close> when
  the image's \<open>onerror\<close> fires: this is the \<open>DecodeError\<close> of the specification. The
  \<open>try/catch\<close> around \<open>analyzeFloorPlan\<close> rejects with whatever that call throws; the one
  exception the calls of \<open>analyzeFloorPlan\<close> can raise is the \<open>IndexSizeError\<close> of
  \<open>getImageData\<close>. A rejected promise carries no result: \<open>Inl\<close>.
\<close>

datatype error = DecodeError | IndexSizeError

text \<open>The object \<open>{...classified, scale, imageWidth, imageHeight}\<close>.\<close>

record ProcessingResult = Classified +
  scale :: real
  imageWidth :: int
  imageHeight :: int

text \<open>
  What the browser does is a parameter of the model: \<open>decode\<close> is the image decoder
  (\<open>None\<close> when \<open>onerror\<close> fires, the decoded image when \<open>onload\<close> fires),
  \<open>imgWidth\<close> and \<open>imgHeight\<close> are \<open>img.width\<close> and \<open>img.height\<close>, and
  \<open>drawImage img w h bitmap\<close> is the canvas bitmap after
  \<open>ctx.drawImage(img, 0, 0, w, h)\<close> on a canvas holding \<open>bitmap\<close>.
\<close>

record ('f, 'i) Platform =
  decode :: "'f \<Rightarrow> 'i option"
  imgWidth :: "'i \<Rightarrow> nat"
  imgHeight :: "'i \<Rightarrow> nat"
  drawImage :: "'i \<Rightarrow> int \<Rightarrow> int \<Rightarrow> int list \<Rightarrow> int list"

text \<open>
  The state of the \<open>ImageProcessor\<close> is its canvas, kept from one call to the next.
  \<open>canvas.width\<close> and \<open>canvas.height\<close> have the IDL type \<open>unsigned long\<close>: an
  assigned number is converted by truncating it towards zero and reducing it modulo
  \<open>2\<^sup>3\<^sup>2\<close>, and the assignment clears the bitmap to transparent black.
\<close>

record Canvas =
  canvasWidth :: int
  canvasHeight :: int
  bitmap :: "int list"

definition toUnsignedLong :: "real \<Rightarrow> int" where
  "toUnsignedLong v = (if 0 \<le> v then \<lfloor>v\<rfloor> else \<lceil>v\<rceil>) mod 2 ^ 32"

definition setCanvasWidth :: "Canvas \<Rightarrow> real \<Rightarrow> Canvas" where
  "setCanvasWidth c v =
     c\<lparr>canvasWidth := toUnsignedLong v,
       bitmap := replicate (nat (4 * toUnsignedLong v * canvasHeight c)) 0\<rparr>"

definition setCanvasHeight :: "Canvas \<Rightarrow> real \<Rightarrow> Canvas" where
  "setCanvasHeight c v =
     c\<lparr>canvasHeight := toUnsignedLong v,
       bitmap := replicate (nat (4 * canvasWidth c * toUnsignedLong v)) 0\<rparr>"

text \<open>
  \<open>ctx.getImageData(0, 0, canvas.width, canvas.height)\<close> throws \<open>IndexSizeError\<close>
  when the width or the height asked for is 0, and returns the pixels of the canvas
  otherwise.
\<close>

definition getImageData :: "Canvas \<Rightarrow> error + ImageData" where
  "getImageData c =
     (if canvasWidth c = 0 \<or> canvasHeight c = 0 then Inl IndexSizeError
      else Inr \<lparr>width = canvasWidth c, height = canvasHeight c, data = bitmap c\<rparr>)"

text \<open>
  \<open>Math.min(maxDim / img.width, maxDim / img.height, 1)\<close> with \<open>maxDim = 800\<close>. In
  JavaScript \<open>800 / 0\<close> is \<open>Infinity\<close>, which \<open>Math.min\<close> then ignores; in HOL
  \<open>800 / 0 = 0\<close>, so the zero cases are written out.
\<close>

definition computeScale :: "nat \<Rightarrow> nat \<Rightarrow> real" where
  "computeScale w h =
     (let maxDim = 800
      in if w = 0 then (if h = 0 then 1 else min (maxDim / real h) 1)
         else if h = 0 then min (maxDim / real w) 1
         else min (min (maxDim / real w) (maxDim / real h)) 1)"

definition analyzeFloorPlan ::
  "('f, 'i) Platform \<Rightarrow> Canvas \<Rightarrow> 'i \<Rightarrow> (error + ProcessingResult) \<times> Canvas" where
  "analyzeFloorPlan P c img =
     (let scale = computeScale (imgWidth P img) (imgHeight P img);
          c1 = setCanvasWidth c (real (imgWidth P img) * scale);
          c2 = setCanvasHeight c1 (real (imgHeight P img) * scale);
          c3 = c2\<lparr>bitmap := drawImage P img (canvasWidth c2) (canvasHeight c2) (bitmap c2)\<rparr>
      in case getImageData c3 of
           Inl err \<Rightarrow> (Inl err, c3)
         | Inr imageData \<Rightarrow>
             (let edges = detectEdges imageData;
                  contours = findContours edges;
                  classified = classifyContours contours (canvasWidth c3) (canvasHeight c3)
              in (Inr \<lparr>walls = walls classified, doors = doors classified,
                       windows = windows classified, rooms = rooms classified,
                       scale = scale, imageWidth = canvasWidth c3,
                       imageHeight = canvasHeight c3\<rparr>, c3)))"

definition processImage ::
  "('f, 'i) Platform \<Rightarrow> Canvas \<Rightarrow> 'f \<Rightarrow> (error + ProcessingResult) \<times> Canvas" where
  "processImage P c file =
     (case decode P file of
        None \<Rightarrow> (Inl DecodeError, c)
      | Some img \<Rightarrow> analyzeFloorPlan P c img)"

text \<open>
  The canvas and its dimensions after the two assignments and \<open>drawImage\<close> of
  \<open>analyzeFloorPlan\<close>.
\<close>

definition scaledWidth :: "('f, 'i) Platform \<Rightarrow> 'i \<Rightarrow> int" where
  "scaledWidth P img = toUnsignedLong (real (imgWidth P img) * computeScale (imgWidth P img) (imgHeight P img))"

definition scaledHeight :: "('f, 'i) Platform \<Rightarrow> 'i \<Rightarrow> int" where
  "scaledHeight P img = toUnsignedLong (real (imgHeight P img) * computeScale (imgWidth P img) (imgHeight P img))"

definition scaledCanvas :: "('f, 'i) Platform \<Rightarrow> 'i \<Rightarrow> Canvas" where
  "scaledCanvas P img =
     \<lparr>canvasWidth = scaledWidth P img, canvasHeight = scaledHeight P img,
      bitmap = drawImage P img (scaledWidth P img) (scaledHeight P img)
                 (replicate (nat (4 * scaledWidth P img * scaledHeight P img)) 0)\<rparr>"




section \<open>Classifier: proofs\<close>

lemma fold_areaStep:
  "fold (areaStep ps) [0..<n] a =
     a + (\<Sum>i<n. fst (ps ! i) * snd (ps ! ((i + 1) mod length ps)) -
                 fst (ps ! ((i + 1) mod length ps)) * snd (ps ! i))"
  by (induction n arbitrary: a) (simp_all add: areaStep_def Let_def)

lemma shoelace_short:
  assumes "length ps < 3"
  shows "shoelace ps = 0"
proof -
  consider "length ps = 0" | "length ps = 1" | "length ps = 2"
    using assms by linarith
  then show ?thesis
  proof cases
    case 1
    then show ?thesis by (simp add: shoelace_def)
  next
    case 2
    then show ?thesis by (simp add: shoelace_def)
  next
    case 3
    then show ?thesis by (simp add: shoelace_def lessThan_Suc numeral_2_eq_2)
  qed
qed

lemma calculateArea_shoelace: "calculateArea ps = \<bar>shoelace ps\<bar>"
proof (cases "length ps < 3")
  case True
  then show ?thesis by (simp add: calculateArea_def shoelace_short)
next
  case False
  then show ?thesis
    by (simp add: calculateArea_def shoelace_def fold_areaStep)
qed

lemma classifyStep_table:
  "classifyStep w h ps acc =
     (case tableOf w h ps of
        None \<Rightarrow> acc
      | Some wall \<Rightarrow> acc\<lparr>walls := walls acc @ [mkContour wall ps]\<rparr>
      | Some door \<Rightarrow> acc\<lparr>doors := doors acc @ [mkContour door ps]\<rparr>
      | Some window \<Rightarrow> acc\<lparr>windows := windows acc @ [mkContour window ps]\<rparr>
      | Some room \<Rightarrow> acc\<lparr>rooms := rooms acc @ [mkContour room ps]\<rparr>)"
  unfolding classifyStep_def tableOf_def decisionTable_def aspectOf_def
    boundaryTouching_def mkContour_def Let_def
  by (simp split: if_splits)

lemma classifyStep_short: "length ps < 3 \<Longrightarrow> classifyStep w h ps acc = acc"
  by (simp add: classifyStep_def calculateArea_def Let_def)

lemma fold_classifyStep:
  "fold (classifyStep w h) cs acc =
     \<lparr>walls = walls acc @ ofType w h wall cs,
      doors = doors acc @ ofType w h door cs,
      windows = windows acc @ ofType w h window cs,
      rooms = rooms acc @ ofType w h room cs\<rparr>"
proof (induction cs arbitrary: acc)
  case Nil
  show ?case by (simp add: ofType_def)
next
  case (Cons ps cs)
  have "fold (classifyStep w h) (ps # cs) acc = fold (classifyStep w h) cs (classifyStep w h ps acc)"
    by simp
  also have "\<dots> =
     \<lparr>walls = walls (classifyStep w h ps acc) @ ofType w h wall cs,
      doors = doors (classifyStep w h ps acc) @ ofType w h door cs,
      windows = windows (classifyStep w h ps acc) @ ofType w h window cs,
      rooms = rooms (classifyStep w h ps acc) @ ofType w h room cs\<rparr>"
    by (rule Cons.IH)
  also have "\<dots> =
     \<lparr>walls = walls acc @ ofType w h wall (ps # cs),
      doors = doors acc @ ofType w h door (ps # cs),
      windows = windows acc @ ofType w h window (ps # cs),
      rooms = rooms acc @ ofType w h room (ps # cs)\<rparr>"
    unfolding classifyStep_table
    by (cases "tableOf w h ps") (auto simp: ofType_def split: ContourType.splits)
  finally show ?case .
qed

lemma classifyContours_ofType:
  "classifyContours cs w h =
     \<lparr>walls = ofType w h wall cs, doors = ofType w h door cs,
      windows = ofType w h window cs, rooms = ofType w h room cs\<rparr>"
  by (simp add: classifyContours_def fold_classifyStep)


lemma doorPoly_facts:
  "calculateArea doorPoly = 2000 \<and> bwidth (getBounds doorPoly) = 40 \<and>
   bheight (getBounds doorPoly) = 30"
  by code_simp




lemma tableOf_doorPoly: "tableOf w h doorPoly = Some door"
  using doorPoly_facts by (simp add: tableOf_def decisionTable_def aspectOf_def)




text \<open>
  Claim C6. Every contour that \<open>classifyContours\<close> emits, in any of the four lists,
  carries as its \<open>area\<close> the absolute value of the signed shoelace area of its point
  sequence, and that point sequence is one of the contours given to the Classifier.
\<close>

theorem contour_area_is_abs_shoelace:
  assumes "c \<in> set (walls (classifyContours cs w h)) \<union> set (doors (classifyContours cs w h)) \<union>
               set (windows (classifyContours cs w h)) \<union> set (rooms (classifyContours cs w h))"
  shows "area c = \<bar>shoelace (points c)\<bar> \<and> points c \<in> set cs"
  using assms
  by (auto simp: classifyContours_ofType ofType_def mkContour_def calculateArea_shoelace)

theorem contour_area_is_abs_shoelace_witness:
  "mkContour door doorPoly \<in>
      set (walls (classifyContours [doorPoly] 800 600)) \<union>
      set (doors (classifyContours [doorPoly] 800 600)) \<union>
      set (windows (classifyContours [doorPoly] 800 600)) \<union>
      set (rooms (classifyContours [doorPoly] 800 600))
   \<and> area (mkContour door doorPoly) = \<bar>shoelace (points (mkContour door doorPoly))\<bar>
   \<and> area (mkContour door doorPoly) = 2000"
proof -
  have h: "mkContour door doorPoly \<in>
      set (walls (classifyContours [doorPoly] 800 600)) \<union>
      set (doors (classifyContours [doorPoly] 800 600)) \<union>
      set (windows (classifyContours [doorPoly] 800 600)) \<union>
      set (rooms (classifyContours [doorPoly] 800 600))"
    by (simp add: classifyContours_ofType ofType_def tableOf_doorPoly)
  have a: "area (mkContour door doorPoly) = 2000"
    using doorPoly_facts by (simp add: mkContour_def)
  have "area (mkContour door doorPoly) = \<bar>shoelace (points (mkContour door doorPoly))\<bar>
      \<and> points (mkContour door doorPoly) \<in> set [doorPoly]"
    by (rule contour_area_is_abs_shoelace[OF h])
  with h a show ?thesis
    by blast
qed

section \<open>Region Tracer: proofs\<close>

lemma set_offsets: "set offsets = {- 1, 0, 1} \<times> {- 1, 0, 1}"
  by (auto simp: offsets_def)

lemma set_fold_pushNeighbour:
  "set (fold (pushNeighbour e p v) ds st) =
     set st \<union> {q. \<exists>d\<in>set ds. q = (fst p + fst d, snd p + snd d) \<and> inBounds e q \<and> q \<notin> v}"
proof (induction ds arbitrary: st)
  case Nil
  show ?case by simp
next
  case (Cons d ds)
  have "set (pushNeighbour e p v d st) =
      set st \<union> {q. q = (fst p + fst d, snd p + snd d) \<and> inBounds e q \<and> q \<notin> v}"
    by (auto simp: pushNeighbour_def inBounds_def Let_def)
  then show ?case
    by (auto simp: Cons.IH)
qed

lemma adjacent_offsets:
  "adjacent p q \<longleftrightarrow> (\<exists>d\<in>set offsets. q = (fst p + fst d, snd p + snd d))"
proof
  assume a: "adjacent p q"
  let ?d = "(fst q - fst p, snd q - snd p)"
  have "fst ?d \<in> {- 1, 0, 1}" "snd ?d \<in> {- 1, 0, 1}"
    using a unfolding adjacent_def by auto
  then have "?d \<in> set offsets"
    unfolding set_offsets mem_Times_iff by blast
  moreover have "q = (fst p + fst ?d, snd p + snd ?d)"
    by simp
  ultimately show "\<exists>d\<in>set offsets. q = (fst p + fst d, snd p + snd d)"
    by blast
next
  assume "\<exists>d\<in>set offsets. q = (fst p + fst d, snd p + snd d)"
  then obtain d where "d \<in> set offsets" "q = (fst p + fst d, snd p + snd d)"
    by blast
  then show "adjacent p q"
    using offsets_abs[of d] by (simp add: adjacent_def)
qed

lemma set_pushNeighbours:
  "set (pushNeighbours e p v st) = set st \<union> {q. adjacent p q \<and> inBounds e q \<and> q \<notin> v}"
  unfolding pushNeighbours_def set_fold_pushNeighbour adjacent_offsets by blast

lemma adjacent_sym: "adjacent p q \<Longrightarrow> adjacent q p"
  by (simp add: adjacent_def abs_minus_commute)

lemma adjacent_refl: "adjacent p p"
  by (simp add: adjacent_def)

lemma traceLoop_rule:
  assumes init: "I stack contour visited"
    and seen: "\<And>p rest c v. I (p # rest) c v \<Longrightarrow> length c < 1000 \<Longrightarrow> p \<in> v \<Longrightarrow> I rest c v"
    and edge: "\<And>p rest c v. I (p # rest) c v \<Longrightarrow> length c < 1000 \<Longrightarrow> p \<notin> v \<Longrightarrow>
        isEdgePixel e p \<Longrightarrow> I (pushNeighbours e p (insert p v) rest) (c @ [p]) (insert p v)"
    and bg: "\<And>p rest c v. I (p # rest) c v \<Longrightarrow> length c < 1000 \<Longrightarrow> p \<notin> v \<Longrightarrow>
        \<not> isEdgePixel e p \<Longrightarrow> I rest c (insert p v)"
    and res: "traceLoop e stack contour visited = (st', c', v')"
  shows "I st' c' v' \<and> (st' = [] \<or> \<not> length c' < 1000)"
proof -
  have "e' = e \<Longrightarrow> I st c v \<Longrightarrow> traceLoop e' st c v = (st', c', v') \<Longrightarrow>
        I st' c' v' \<and> (st' = [] \<or> \<not> length c' < 1000)" for e' st c v
  proof (induction e' st c v rule: traceLoop.induct)
    case (1 edges stack contour visited)
    note [simp] = \<open>edges = e\<close>
    show ?case
    proof (cases stack)
      case Nil
      with "1.prems" show ?thesis
        by (simp add: traceLoop.simps)
    next
      case (Cons p rest)
      show ?thesis
      proof (cases "length contour < 1000")
        case False
        with Cons "1.prems" show ?thesis
          by (simp add: traceLoop.simps)
      next
        case len: True
        have nn: "\<not> \<not> length contour < 1000"
          using len by simp
        show ?thesis
        proof (cases "p \<in> visited")
          case True
          have "traceLoop edges rest contour visited = (st', c', v')"
            using "1.prems"(3) Cons len True by (simp add: traceLoop.simps)
          moreover have "I rest contour visited"
            using "1.prems"(2) Cons len True seen by blast
          ultimately show ?thesis
            using "1.IH"(1)[OF Cons nn True] by simp
        next
          case nv: False
          show ?thesis
          proof (cases "isEdgePixel e p")
            case True
            have "traceLoop edges (pushNeighbours edges p (insert p visited) rest)
                    (contour @ [p]) (insert p visited) = (st', c', v')"
              using "1.prems"(3) Cons len nv True by (simp add: traceLoop.simps)
            moreover have "I (pushNeighbours e p (insert p visited) rest)
                    (contour @ [p]) (insert p visited)"
              using "1.prems"(2) Cons len nv True edge by blast
            ultimately show ?thesis
              using "1.IH"(2)[OF Cons nn nv] True by simp
          next
            case False
            have "traceLoop edges rest contour (insert p visited) = (st', c', v')"
              using "1.prems"(3) Cons len nv False by (simp add: traceLoop.simps)
            moreover have "I rest contour (insert p visited)"
              using "1.prems"(2) Cons len nv False bg by blast
            ultimately show ?thesis
              using "1.IH"(3)[OF Cons nn nv] False by simp
          qed
        qed
      qed
    qed
  qed
  from this[OF refl init res] show ?thesis .
qed

lemma traceLoop_length:
  assumes "traceLoop e st c v = (st', c', v')" "length c \<le> 1000"
  shows "length c' \<le> 1000 \<and> (st' \<noteq> [] \<longrightarrow> length c' = 1000)"
proof -
  have "length c' \<le> 1000 \<and> (st' = [] \<or> \<not> length c' < 1000)"
    by (rule traceLoop_rule[where I = "\<lambda>st c v. length c \<le> 1000", OF assms(2) _ _ _ assms(1)])
      simp_all
  then show ?thesis by auto
qed

lemma traceLoop_visited:
  assumes res: "traceLoop e st c v0 = (st', c', v')"
    and init: "distinct c" "set c \<subseteq> v0"
  shows "v0 \<subseteq> v' \<and> distinct c' \<and> set c' = set c \<union> {p \<in> v' - v0. isEdgePixel e p}"
proof -
  let ?I = "\<lambda>st' c' v'. v0 \<subseteq> v' \<and> distinct c' \<and>
      set c' = set c \<union> {p \<in> v' - v0. isEdgePixel e p}"
  have "?I st' c' v' \<and> (st' = [] \<or> \<not> length c' < 1000)"
  proof (rule traceLoop_rule[where I = ?I, OF _ _ _ _ res])
    show "?I st c v0" using init by auto
  next
    fix p rest c v
    assume "?I (p # rest) c v" "p \<in> v"
    then show "?I rest c v" by simp
  next
    fix p rest ca v
    assume a: "?I (p # rest) ca v" "p \<notin> v" "isEdgePixel e p"
    have "p \<notin> set ca" using a init(2) by auto
    then show "?I (pushNeighbours e p (insert p v) rest) (ca @ [p]) (insert p v)"
      using a by auto
  next
    fix p rest ca v
    assume a: "?I (p # rest) ca v" "p \<notin> v" "\<not> isEdgePixel e p"
    then show "?I rest ca (insert p v)" by auto
  qed
  then show ?thesis by simp
qed

lemma traceLoop_bounds:
  assumes res: "traceLoop e st c v0 = (st', c', v')"
    and init: "\<forall>q\<in>set st. inBounds e q"
  shows "\<forall>q\<in>v' - v0. inBounds e q"
proof -
  let ?I = "\<lambda>st' (c' :: Point list) v'. (\<forall>q\<in>set st'. inBounds e q) \<and> (\<forall>q\<in>v' - v0. inBounds e q)"
  have "?I st' c' v' \<and> (st' = [] \<or> \<not> length c' < 1000)"
    by (rule traceLoop_rule[where I = ?I, OF _ _ _ _ res])
      (use init in \<open>auto simp: set_pushNeighbours\<close>)
  then show ?thesis by simp
qed

lemma traceLoop_start_visited:
  assumes res: "traceLoop e [s] [] v0 = (st', c', v')"
  shows "s \<in> v'"
proof -
  let ?I = "\<lambda>st' (c' :: Point list) v'. s \<in> v' \<or> (st' = [s] \<and> c' = [])"
  have "?I st' c' v' \<and> (st' = [] \<or> \<not> length c' < 1000)"
    by (rule traceLoop_rule[where I = ?I, OF _ _ _ _ res]) auto
  then show ?thesis by auto
qed

lemma traceLoop_closure:
  assumes res: "traceLoop e st c v0 = (st', c', v')"
    and init: "\<forall>p\<in>set c. \<forall>q. adjacent p q \<and> inBounds e q \<longrightarrow> q \<in> v0 \<or> q \<in> set st"
  shows "\<forall>p\<in>set c'. \<forall>q. adjacent p q \<and> inBounds e q \<longrightarrow> q \<in> v' \<or> q \<in> set st'"
proof -
  let ?I = "\<lambda>st' c' v'. \<forall>p\<in>set c'. \<forall>q. adjacent p q \<and> inBounds e q \<longrightarrow> q \<in> v' \<or> q \<in> set st'"
  have "?I st' c' v' \<and> (st' = [] \<or> \<not> length c' < 1000)"
  proof (rule traceLoop_rule[where I = ?I, OF _ _ _ _ res])
    show "?I st c v0" using init by simp
  next
    fix p rest c v
    assume "?I (p # rest) c v" "p \<in> v"
    then show "?I rest c v" by auto
  next
    fix p rest ca v
    assume a: "?I (p # rest) ca v"
    show "?I (pushNeighbours e p (insert p v) rest) (ca @ [p]) (insert p v)"
      using a by (auto simp: set_pushNeighbours)
  next
    fix p rest ca v
    assume a: "?I (p # rest) ca v"
    then show "?I rest ca (insert p v)" by auto
  qed
  then show ?thesis by simp
qed

lemma traceLoop_connected:
  assumes res: "traceLoop e st c v0 = (st', c', v')"
    and init: "\<forall>q\<in>set st. inBounds e q" "\<forall>q\<in>set c \<union> (set st \<inter> edgeSet e). q \<in> component e s"
  shows "set c' \<subseteq> component e s"
proof -
  let ?I = "\<lambda>st' c' (v' :: Point set). (\<forall>q\<in>set st'. inBounds e q) \<and>
      (\<forall>q\<in>set c' \<union> (set st' \<inter> edgeSet e). q \<in> component e s)"
  have "?I st' c' v' \<and> (st' = [] \<or> \<not> length c' < 1000)"
  proof (rule traceLoop_rule[where I = ?I, OF _ _ _ _ res])
    show "?I st c v0" using init by simp
  next
    fix p rest c v
    assume "?I (p # rest) c v"
    then show "?I rest c v" by auto
  next
    fix p rest ca v
    assume a: "?I (p # rest) ca v" and ed: "isEdgePixel e p"
    have pe: "p \<in> edgeSet e" using a ed by (simp add: edgeSet_def)
    then have pc: "p \<in> component e s" using a by auto
    have "q \<in> component e s" if "adjacent p q" "q \<in> edgeSet e" for q
    proof -
      have "(p, q) \<in> edgeAdj e" using that pe by (simp add: edgeAdj_def adjIn_def)
      then show ?thesis using pc unfolding component_def by (auto intro: rtrancl_into_rtrancl)
    qed
    then show "?I (pushNeighbours e p (insert p v) rest) (ca @ [p]) (insert p v)"
      using a pc by (auto simp: set_pushNeighbours)
  next
    fix p rest ca v
    assume a: "?I (p # rest) ca v"
    then show "?I rest ca (insert p v)" by auto
  qed
  then show ?thesis by auto
qed

lemma finite_edgeSet: "finite (edgeSet e)"
proof -
  have "edgeSet e \<subseteq> {0..width e} \<times> {0..height e}"
    by (auto simp: edgeSet_def inBounds_def)
  then show ?thesis
    by (rule finite_subset) simp
qed

lemma component_subset: "s \<in> edgeSet e \<Longrightarrow> component e s \<subseteq> edgeSet e"
proof
  fix q assume s: "s \<in> edgeSet e" and "q \<in> component e s"
  then have "(s, q) \<in> (edgeAdj e)\<^sup>*" by (simp add: component_def)
  then show "q \<in> edgeSet e"
    by (induction rule: rtrancl_induct) (use s in \<open>auto simp: edgeAdj_def adjIn_def\<close>)
qed

lemma finite_component: "s \<in> edgeSet e \<Longrightarrow> finite (component e s)"
  using component_subset finite_edgeSet by (rule finite_subset)

lemma self_in_component: "s \<in> component e s"
  by (simp add: component_def)

lemma edgeAdj_sym: "(p, q) \<in> edgeAdj e \<Longrightarrow> (q, p) \<in> edgeAdj e"
  by (simp add: edgeAdj_def adjIn_def adjacent_sym)

lemma closed_contains_component:
  assumes "closedUnder e v" "s \<in> v"
  shows "component e s \<subseteq> v"
proof
  fix q assume "q \<in> component e s"
  then have "(s, q) \<in> (edgeAdj e)\<^sup>*" by (simp add: component_def)
  then show "q \<in> v"
    by (induction rule: rtrancl_induct) (use assms in \<open>auto simp: closedUnder_def\<close>)
qed

lemma closedUnder_component: "closedUnder e (component e s)"
  unfolding closedUnder_def component_def by (auto intro: rtrancl_into_rtrancl)

lemma closedUnder_Un: "closedUnder e a \<Longrightarrow> closedUnder e b \<Longrightarrow> closedUnder e (a \<union> b)"
  unfolding closedUnder_def by blast

lemma trace_sound:
  assumes res: "traceLoop e [s] [] v0 = (st', c', v')" and s: "s \<in> edgeSet e"
  shows "set c' \<subseteq> component e s"
proof -
  have "inBounds e s" using s by (simp add: edgeSet_def)
  then show ?thesis
    using traceLoop_connected[OF res, of s] by (simp add: self_in_component)
qed

lemma trace_complete:
  assumes res: "traceLoop e [s] [] v0 = (st', c', v')"
    and s: "s \<in> edgeSet e" "s \<notin> v0"
    and closed: "closedUnder e (v0 \<inter> edgeSet e)"
    and empty: "st' = []"
  shows "component e s \<subseteq> set c'"
proof -
  have se: "isEdgePixel e s"
    using s(1) by (simp add: edgeSet_def)
  have vis: "v0 \<subseteq> v'" "distinct c'" "set c' = {p \<in> v' - v0. isEdgePixel e p}"
    using traceLoop_visited[OF res] by simp_all
  have clo: "\<forall>p\<in>set c'. \<forall>q. adjacent p q \<and> inBounds e q \<longrightarrow> q \<in> v'"
    using traceLoop_closure[OF res] empty by simp
  have sin: "s \<in> set c'"
    using traceLoop_start_visited[OF res] s(2) se vis(3) by simp
  have cl: "closedUnder e (set c')"
    unfolding closedUnder_def
  proof (intro allI impI)
    fix p q assume a: "p \<in> set c' \<and> (p, q) \<in> edgeAdj e"
    then have p: "p \<in> v'" "p \<notin> v0" "p \<in> edgeSet e" and q: "q \<in> edgeSet e" "adjacent p q"
      using vis(3) by (auto simp: edgeAdj_def adjIn_def)
    have "inBounds e q"
      using q(1) by (simp add: edgeSet_def)
    with clo a q(2) have "q \<in> v'"
      by blast
    moreover have "q \<notin> v0"
    proof
      assume "q \<in> v0"
      then have "q \<in> v0 \<inter> edgeSet e" using q by simp
      moreover have "(q, p) \<in> edgeAdj e" using a by (simp add: edgeAdj_sym)
      ultimately have "p \<in> v0 \<inter> edgeSet e"
        using closed unfolding closedUnder_def by blast
      then show False using p by simp
    qed
    ultimately show "q \<in> set c'"
      using vis(3) q by (simp add: edgeSet_def)
  qed
  show ?thesis
    by (rule closed_contains_component[OF cl sin])
qed

lemma trace_component:
  assumes res: "traceLoop e [s] [] v0 = (st', c', v')"
    and s: "s \<in> edgeSet e" "s \<notin> v0"
    and closed: "closedUnder e (v0 \<inter> edgeSet e)"
    and small: "card (component e s) < 1000"
  shows "st' = [] \<and> distinct c' \<and> set c' = component e s \<and> v0 \<subseteq> v' \<and>
         v' \<inter> edgeSet e = v0 \<inter> edgeSet e \<union> component e s"
proof -
  have vis: "v0 \<subseteq> v'" "distinct c'" "set c' = {p \<in> v' - v0. isEdgePixel e p}"
    using traceLoop_visited[OF res] by simp_all
  have sub: "set c' \<subseteq> component e s"
    by (rule trace_sound[OF res s(1)])
  have "length c' = card (set c')"
    using vis(2) by (simp add: distinct_card)
  also have "\<dots> \<le> card (component e s)"
    using sub finite_component[OF s(1)] by (rule card_mono[rotated])
  finally have len: "length c' < 1000"
    using small by simp
  have empty: "st' = []"
    using traceLoop_length[OF res] len by auto
  have eq: "set c' = component e s"
    using sub trace_complete[OF res s closed empty] by blast
  have "v' \<inter> edgeSet e = v0 \<inter> edgeSet e \<union> component e s"
  proof -
    have "set c' \<subseteq> edgeSet e" using eq component_subset[OF s(1)] by simp
    then show ?thesis
      using vis(1,3) eq unfolding edgeSet_def by auto
  qed
  with empty vis eq show ?thesis by simp
qed

lemma scanPixel_skip:
  "(x, y) \<in> v \<or> \<not> isEdgePixel e (x, y) \<Longrightarrow> scanPixel e y x (cs, v) = (cs, v)"
  by (auto simp: scanPixel_def)

lemma scanPixel_trace:
  assumes "(x, y) \<notin> v" "isEdgePixel e (x, y)" "traceLoop e [(x, y)] [] v = (st', c', v')"
  shows "scanPixel e y x (cs, v) = (if length c' > 10 then cs @ [c'] else cs, v')"
  using assms by (simp add: scanPixel_def traceContour_def)

lemma scanPixel_rule:
  assumes skip: "(x, y) \<in> v \<or> \<not> isEdgePixel e (x, y) \<Longrightarrow> P (cs, v)"
    and trace: "\<And>st' c' v'. (x, y) \<notin> v \<Longrightarrow> isEdgePixel e (x, y) \<Longrightarrow>
        traceLoop e [(x, y)] [] v = (st', c', v') \<Longrightarrow>
        P (if length c' > 10 then cs @ [c'] else cs, v')"
  shows "P (scanPixel e y x (cs, v))"
proof (cases "(x, y) \<in> v \<or> \<not> isEdgePixel e (x, y)")
  case True
  then show ?thesis using skip by (simp add: scanPixel_skip)
next
  case False
  obtain st' c' v' where r: "traceLoop e [(x, y)] [] v = (st', c', v')"
    by (cases "traceLoop e [(x, y)] [] v") auto
  show ?thesis
    using False trace[OF _ _ r] by (simp add: scanPixel_trace[OF _ _ r])
qed

lemma scanRow_rule:
  assumes step: "\<And>x S s. x \<in> set xs \<Longrightarrow> J S s \<Longrightarrow> J (insert (x, y) S) (scanPixel e y x s)"
    and init: "J S s"
  shows "J (S \<union> (\<lambda>x. (x, y)) ` set xs) (fold (scanPixel e y) xs s)"
  using assms
proof (induction xs arbitrary: S s)
  case Nil
  then show ?case by simp
next
  case (Cons x xs)
  have "J (insert (x, y) S) (scanPixel e y x s)"
    using Cons.prems by simp
  then have "J (insert (x, y) S \<union> (\<lambda>x. (x, y)) ` set xs) (fold (scanPixel e y) xs (scanPixel e y x s))"
    using Cons.prems(1) by (intro Cons.IH) simp_all
  then show ?case by simp
qed

lemma scanRows_rule:
  assumes step: "\<And>x y S s. x \<in> set xs \<Longrightarrow> y \<in> set ys \<Longrightarrow> J S s \<Longrightarrow>
        J (insert (x, y) S) (scanPixel e y x s)"
    and init: "J S s"
  shows "J (S \<union> set xs \<times> set ys) (fold (\<lambda>y s. fold (scanPixel e y) xs s) ys s)"
  using assms
proof (induction ys arbitrary: S s)
  case Nil
  then show ?case by simp
next
  case (Cons y ys)
  have "J (S \<union> (\<lambda>x. (x, y)) ` set xs) (fold (scanPixel e y) xs s)"
  proof (rule scanRow_rule[where J = J])
    show "J S s" by (rule Cons.prems(2))
  next
    fix x S s assume "x \<in> set xs" "J S s"
    then show "J (insert (x, y) S) (scanPixel e y x s)"
      using Cons.prems(1) by simp
  qed
  then have "J (S \<union> (\<lambda>x. (x, y)) ` set xs \<union> set xs \<times> set ys)
      (fold (\<lambda>y s. fold (scanPixel e y) xs s) ys (fold (scanPixel e y) xs s))"
    using Cons.prems(1) by (intro Cons.IH) simp_all
  moreover have "S \<union> (\<lambda>x. (x, y)) ` set xs \<union> set xs \<times> set ys = S \<union> set xs \<times> set (y # ys)"
    by auto
  ultimately show ?case by simp
qed

lemma scanAll_rule:
  assumes init: "J {} ([], {})"
    and step: "\<And>x y S s. inBounds e (x, y) \<Longrightarrow> J S s \<Longrightarrow> J (insert (x, y) S) (scanPixel e y x s)"
  shows "J {p. inBounds e p} (scanAll e)"
proof -
  have "J ({} \<union> set [0..width e - 1] \<times> set [0..height e - 1]) (scanAll e)"
    unfolding scanAll_def
  proof (rule scanRows_rule[where J = J, OF _ init])
    fix x y S s
    assume "x \<in> set [0..width e - 1]" "y \<in> set [0..height e - 1]" "J S s"
    then show "J (insert (x, y) S) (scanPixel e y x s)"
      by (intro step) (simp_all add: inBounds_def)
  qed
  moreover have "{} \<union> set [0..width e - 1] \<times> set [0..height e - 1] = {p. inBounds e p}"
    by (auto simp: inBounds_def)
  ultimately show ?thesis by simp
qed

lemma trace_contour_facts:
  assumes res: "traceLoop e [(x, y)] [] v = (st', c', v')" and b: "inBounds e (x, y)"
  shows "length c' \<le> 1000" "distinct c'" "set c' \<subseteq> edgeSet e" "v \<subseteq> v'" "(x, y) \<in> v'"
    "set c' = {p \<in> v' - v. isEdgePixel e p}"
proof -
  show "length c' \<le> 1000" using traceLoop_length[OF res] by simp
  show "distinct c'" "v \<subseteq> v'" and eq: "set c' = {p \<in> v' - v. isEdgePixel e p}"
    using traceLoop_visited[OF res] by simp_all
  have "\<forall>q\<in>v' - v. inBounds e q"
    using traceLoop_bounds[OF res] b by simp
  then show "set c' \<subseteq> edgeSet e" using eq by (auto simp: edgeSet_def)
  show "(x, y) \<in> v'" by (rule traceLoop_start_visited[OF res])
qed

lemma scanAll_contours:
  "\<forall>c\<in>set (fst (scanAll e)). 10 < length c \<and> length c \<le> 1000 \<and> distinct c \<and> set c \<subseteq> edgeSet e"
proof -
  let ?J = "\<lambda>(S :: Point set) (s :: Point list list \<times> Point set). \<forall>c\<in>set (fst s).
      10 < length c \<and> length c \<le> 1000 \<and> distinct c \<and> set c \<subseteq> edgeSet e"
  have "?J {p. inBounds e p} (scanAll e)"
  proof (rule scanAll_rule[where J = ?J])
    show "?J {} ([], {})" by simp
  next
    fix x y S s
    assume b: "inBounds e (x, y)" and J: "?J S s"
    obtain cs v where s: "s = (cs, v)" by (cases s)
    show "?J (insert (x, y) S) (scanPixel e y x s)"
      unfolding s
    proof (rule scanPixel_rule)
      show "?J (insert (x, y) S) (cs, v)" using J s by simp
    next
      fix st' c' v'
      assume "traceLoop e [(x, y)] [] v = (st', c', v')"
      from trace_contour_facts(1-3)[OF this b] J s
      show "?J (insert (x, y) S) (if 10 < length c' then cs @ [c'] else cs, v')"
        by auto
    qed
  qed
  then show ?thesis by simp
qed

lemma scanAll_visits_edges: "edgeSet e \<subseteq> snd (scanAll e)"
proof -
  let ?J = "\<lambda>S (s :: Point list list \<times> Point set). S \<inter> Collect (isEdgePixel e) \<subseteq> snd s"
  have "?J {p. inBounds e p} (scanAll e)"
  proof (rule scanAll_rule[where J = ?J])
    show "?J {} ([], {})" by simp
  next
    fix x y S s
    assume b: "inBounds e (x, y)" and J: "?J S s"
    obtain cs v where s: "s = (cs, v)" by (cases s)
    show "?J (insert (x, y) S) (scanPixel e y x s)"
      unfolding s
    proof (rule scanPixel_rule)
      assume "(x, y) \<in> v \<or> \<not> isEdgePixel e (x, y)"
      then show "?J (insert (x, y) S) (cs, v)" using J s by auto
    next
      fix st' c' v'
      assume "traceLoop e [(x, y)] [] v = (st', c', v')"
      from trace_contour_facts(4,5)[OF this b] J s
      show "?J (insert (x, y) S) (if 10 < length c' then cs @ [c'] else cs, v')"
        by auto
    qed
  qed
  then show ?thesis by (auto simp: edgeSet_def)
qed

lemma component_eq:
  assumes "p \<in> component e s"
  shows "component e p = component e s"
proof -
  have sym: "sym ((edgeAdj e)\<^sup>*)"
    by (rule sym_rtrancl) (auto simp: sym_def edgeAdj_sym)
  have sp: "(s, p) \<in> (edgeAdj e)\<^sup>*" using assms by (simp add: component_def)
  then have ps: "(p, s) \<in> (edgeAdj e)\<^sup>*" using sym by (rule symD[rotated])
  show ?thesis
    unfolding component_def using sp ps by (auto intro: rtrancl_trans)
qed

lemma bigComponents_Un:
  "bigComponents e (a \<union> b) = bigComponents e a \<union> bigComponents e b"
proof -
  have "{p \<in> (a \<union> b) \<inter> edgeSet e. 10 < card (component e p)} =
      {p \<in> a \<inter> edgeSet e. 10 < card (component e p)} \<union>
      {p \<in> b \<inter> edgeSet e. 10 < card (component e p)}"
    by blast
  then show ?thesis
    unfolding bigComponents_def by (simp only: image_Un)
qed

lemma bigComponents_Int: "bigComponents e (v \<inter> edgeSet e) = bigComponents e v"
  unfolding bigComponents_def by (simp only: Int_assoc Int_absorb)

lemma bigComponents_component:
  assumes "s \<in> edgeSet e"
  shows "bigComponents e (component e s) = (if 10 < card (component e s) then {component e s} else {})"
proof -
  have sub: "component e s \<inter> edgeSet e = component e s"
    using component_subset[OF assms] by blast
  have ceq: "component e p = component e s" if "p \<in> component e s" for p
    using that by (rule component_eq)
  have "{p \<in> component e s. 10 < card (component e p)} =
      {p \<in> component e s. 10 < card (component e s)}"
    by (rule Collect_cong) (simp add: ceq cong: conj_cong)
  then have eq: "{p \<in> component e s. 10 < card (component e p)} =
      (if 10 < card (component e s) then component e s else {})"
    by simp
  have "component e s \<in> component e ` component e s"
    using refl self_in_component by (rule image_eqI)
  moreover have "component e ` component e s \<subseteq> {component e s}"
    using ceq by blast
  ultimately have "component e ` component e s = {component e s}"
    by blast
  then show ?thesis
    unfolding bigComponents_def sub eq by simp
qed

lemma scanAll_components:
  assumes small: "\<forall>p\<in>edgeSet e. card (component e p) < 1000"
  shows "distinct (map set (findContours e)) \<and>
         set (map set (findContours e)) = bigComponents e (edgeSet e) \<and>
         (\<forall>c\<in>set (findContours e). distinct c)"
proof -
  let ?J = "\<lambda>(S :: Point set) (s :: Point list list \<times> Point set). closedUnder e (snd s \<inter> edgeSet e) \<and> distinct (map set (fst s)) \<and>
      set (map set (fst s)) = bigComponents e (snd s) \<and> (\<forall>c\<in>set (fst s). distinct c)"
  have "?J {p. inBounds e p} (scanAll e)"
  proof (rule scanAll_rule[where J = ?J])
    show "?J {} ([], {})" by (simp add: closedUnder_def bigComponents_def)
  next
    fix x y S s
    assume b: "inBounds e (x, y)" and J: "?J S s"
    obtain cs v where s: "s = (cs, v)" by (cases s)
    have J1: "closedUnder e (v \<inter> edgeSet e)" and J2: "distinct (map set cs)"
      and J3: "set (map set cs) = bigComponents e v" and J4: "\<forall>c\<in>set cs. distinct c"
      using J s by simp_all
    show "?J (insert (x, y) S) (scanPixel e y x s)"
      unfolding s
    proof (rule scanPixel_rule)
      show "?J (insert (x, y) S) (cs, v)" using J s by simp
    next
      fix st' c' v'
      assume nv: "(x, y) \<notin> v" and ed: "isEdgePixel e (x, y)"
        and res: "traceLoop e [(x, y)] [] v = (st', c', v')"
      let ?C = "component e (x, y)"
      have se: "(x, y) \<in> edgeSet e" using b ed by (simp add: edgeSet_def)
      have sm: "card ?C < 1000" using small se by blast
      have tc: "distinct c'" "set c' = ?C" "v' \<inter> edgeSet e = v \<inter> edgeSet e \<union> ?C"
        using trace_component[OF res se nv J1 sm] by simp_all
      have len: "length c' = card ?C"
        using tc(1,2) distinct_card by fastforce
      have Csub: "?C \<subseteq> edgeSet e" by (rule component_subset[OF se])
      have clo: "closedUnder e (v' \<inter> edgeSet e)"
        unfolding tc(3) by (rule closedUnder_Un[OF J1 closedUnder_component])
      have big: "bigComponents e v' = bigComponents e v \<union> (if 10 < card ?C then {?C} else {})"
      proof -
        have "bigComponents e v' = bigComponents e (v' \<inter> edgeSet e)"
          by (simp only: bigComponents_Int)
        also have "\<dots> = bigComponents e (v \<inter> edgeSet e) \<union> bigComponents e ?C"
          unfolding tc(3) by (rule bigComponents_Un)
        finally show ?thesis
          by (simp only: bigComponents_Int bigComponents_component[OF se])
      qed
      have new: "?C \<notin> bigComponents e v"
      proof
        assume "?C \<in> bigComponents e v"
        then obtain p where p: "p \<in> v \<inter> edgeSet e" "?C = component e p"
          unfolding bigComponents_def by auto
        have "component e p \<subseteq> v \<inter> edgeSet e"
          using closed_contains_component[OF J1 p(1)] .
        then have "(x, y) \<in> v" using p(2) self_in_component[of "(x, y)" e] by auto
        then show False using nv by simp
      qed
      show "?J (insert (x, y) S) (if 10 < length c' then cs @ [c'] else cs, v')"
        using clo big new J2 J3 J4 tc(1,2) len by auto
    qed
  qed
  moreover have "bigComponents e (snd (scanAll e)) = bigComponents e (edgeSet e)"
  proof -
    have "snd (scanAll e) \<inter> edgeSet e = edgeSet e"
      using scanAll_visits_edges[of e] by blast
    then show ?thesis
      using bigComponents_Int[of e "snd (scanAll e)"] bigComponents_Int[of e "edgeSet e"] by simp
  qed
  ultimately show ?thesis by (simp add: findContours_def)
qed

section \<open>Region Tracer: concrete masks and the claims\<close>

lemma concat_quads:
  assumes "\<And>x. length (f x) = 4"
  shows "length (concat (map f xs)) = 4 * length xs"
    and "i < length xs \<Longrightarrow> k < 4 \<Longrightarrow> concat (map f xs) ! (4 * i + k) = f (xs ! i) ! k"
proof -
  show "length (concat (map f xs)) = 4 * length xs"
    by (induction xs) (simp_all add: assms)
  show "i < length xs \<Longrightarrow> k < 4 \<Longrightarrow> concat (map f xs) ! (4 * i + k) = f (xs ! i) ! k"
  proof (induction xs arbitrary: i)
    case Nil
    then show ?case by simp
  next
    case (Cons x xs)
    show ?case
    proof (cases i)
      case 0
      then show ?thesis using Cons.prems by (simp add: nth_append assms)
    next
      case (Suc j)
      then have "4 * i + k = 4 + (4 * j + k)" by simp
      then show ?thesis using Cons Suc by (simp add: nth_append assms)
    qed
  qed
qed

lemma pixel_index:
  fixes x y w h :: int
  assumes "0 \<le> x" "x < w" "0 \<le> y" "y < h"
  shows "0 \<le> y * w + x" "y * w + x < w * h" "(y * w + x) mod w = x" "(y * w + x) div w = y"
proof -
  have w: "0 < w" using assms by linarith
  have yw: "0 \<le> y * w" using assms w by (intro mult_nonneg_nonneg) simp_all
  then show "0 \<le> y * w + x" using assms by linarith
  have "y * w + x < y * w + w" using assms by simp
  also have "\<dots> = (y + 1) * w" by (simp add: algebra_simps)
  also have "\<dots> \<le> h * w" using assms by (intro mult_right_mono) simp_all
  finally show "y * w + x < w * h" by (simp add: mult.commute)
  show "(y * w + x) mod w = x" using assms by simp
  show "(y * w + x) div w = y" using assms by simp
qed

lemma isEdgePixel_maskOf:
  assumes "inBounds (maskOf w h P) (x, y)"
  shows "isEdgePixel (maskOf w h P) (x, y) = P (x, y)"
proof -
  have b: "0 \<le> x" "x < w" "0 \<le> y" "y < h"
    using assms by (simp_all add: inBounds_def maskOf_def)
  let ?f = "\<lambda>i. if P (int i mod w, int i div w) then [255, 255, 255, 255] else [0, 0, 0, 255 :: int]"
  let ?n = "nat (y * w + x)"
  note pi = pixel_index[OF b]
  have n: "?n < length [0..<nat (w * h)]" using pi(1,2) by simp
  have len: "length (data (maskOf w h P)) = 4 * nat (w * h)"
    using concat_quads(1)[of ?f "[0..<nat (w * h)]"] by (simp add: maskOf_def)
  have "data (maskOf w h P) ! (4 * ?n + 0) = ?f ([0..<nat (w * h)] ! ?n) ! 0"
    unfolding maskOf_def ImageData.simps by (rule concat_quads(2)[OF _ n]) simp_all
  also have "\<dots> = (if P (x, y) then 255 else 0)"
    using n pi by simp
  finally have v: "data (maskOf w h P) ! (4 * ?n) = (if P (x, y) then 255 else 0)" by simp
  have idx: "nat ((y * w + x) * 4) = 4 * ?n" using pi(1) by (simp add: nat_mult_distrib)
  have "byteAt (data (maskOf w h P)) ((y * w + x) * 4) = Some (if P (x, y) then 255 else 0)"
    unfolding byteAt_def using pi(1,2) len v idx by simp
  then show ?thesis
    by (simp add: isEdgePixel_def maskOf_def)
qed

lemma edgeSet_maskOf: "edgeSet (maskOf w h P) = {p. inBounds (maskOf w h P) p \<and> P p}"
  unfolding edgeSet_def using isEdgePixel_maskOf by auto

lemma adjIn_sym: "(p, q) \<in> adjIn B \<Longrightarrow> (q, p) \<in> adjIn B"
  by (simp add: adjIn_def adjacent_sym)

lemma adjIn_rtrancl_sym: "(p, q) \<in> (adjIn B)\<^sup>* \<Longrightarrow> (q, p) \<in> (adjIn B)\<^sup>*"
proof -
  have "sym ((adjIn B)\<^sup>*)"
    by (rule sym_rtrancl) (auto simp: sym_def adjIn_sym)
  then show "(p, q) \<in> (adjIn B)\<^sup>* \<Longrightarrow> (q, p) \<in> (adjIn B)\<^sup>*"
    by (rule symD)
qed

lemma adjIn_mono: "A \<subseteq> B \<Longrightarrow> (adjIn A)\<^sup>* \<subseteq> (adjIn B)\<^sup>*"
  by (rule rtrancl_mono) (auto simp: adjIn_def)

lemma hseg_path:
  assumes "a \<le> x" "x \<le> b"
  shows "((a, y), (x, y)) \<in> (adjIn ({a..b} \<times> {y}))\<^sup>*"
  using assms
proof (induction x rule: int_ge_induct)
  case base
  show ?case by simp
next
  case (step i)
  have "((i, y), (i + 1, y)) \<in> adjIn ({a..b} \<times> {y})"
    using step.hyps step.prems by (simp add: adjIn_def adjacent_def)
  moreover have "((a, y), (i, y)) \<in> (adjIn ({a..b} \<times> {y}))\<^sup>*"
    using step by simp
  ultimately show ?case by (rule rtrancl_into_rtrancl[rotated])
qed

lemma connected8_hseg: "connected8 ({a..b} \<times> {y})"
  unfolding connected8_def
proof (intro ballI)
  fix p q assume "p \<in> {a..b} \<times> {y}" "q \<in> {a..b} \<times> {y}"
  then obtain x x' where p: "p = (x, y)" "a \<le> x" "x \<le> b" and q: "q = (x', y)" "a \<le> x'" "x' \<le> b"
    by auto
  have "(p, (a, y)) \<in> (adjIn ({a..b} \<times> {y}))\<^sup>*"
    unfolding p(1) by (rule adjIn_rtrancl_sym) (rule hseg_path[OF p(2,3)])
  moreover have "((a, y), q) \<in> (adjIn ({a..b} \<times> {y}))\<^sup>*"
    unfolding q(1) by (rule hseg_path[OF q(2,3)])
  ultimately show "(p, q) \<in> (adjIn ({a..b} \<times> {y}))\<^sup>*"
    by (rule rtrancl_trans)
qed

lemma component_blob:
  assumes con: "connected8 B" and sub: "B \<subseteq> edgeSet e" and clo: "closedUnder e B" and p: "p \<in> B"
  shows "component e p = B"
proof
  show "component e p \<subseteq> B"
    by (rule closed_contains_component[OF clo p])
  show "B \<subseteq> component e p"
  proof
    fix q assume "q \<in> B"
    then have "(p, q) \<in> (adjIn B)\<^sup>*" using con p by (simp add: connected8_def)
    then have "(p, q) \<in> (edgeAdj e)\<^sup>*"
      using adjIn_mono[OF sub] unfolding edgeAdj_def by blast
    then show "q \<in> component e p" by (simp add: component_def)
  qed
qed

lemma closedUnder_empty: "closedUnder e ({} \<inter> edgeSet e)"
  by (simp add: closedUnder_def)

lemma edgeSet_lineMask: "edgeSet lineMask = {0..1000} \<times> {0}"
  unfolding lineMask_def edgeSet_maskOf by (auto simp: inBounds_def maskOf_def)

lemma card_lineMask: "card (edgeSet lineMask) = 1001"
  unfolding edgeSet_lineMask by (simp add: card_cartesian_product)

lemma closedUnder_edgeSet: "closedUnder e (edgeSet e)"
  by (simp add: closedUnder_def edgeAdj_def adjIn_def)

lemma component_lineMask: "component lineMask (0, 0) = edgeSet lineMask"
proof (rule component_blob)
  show "connected8 (edgeSet lineMask)"
    unfolding edgeSet_lineMask by (rule connected8_hseg)
  show "closedUnder lineMask (edgeSet lineMask)" by (rule closedUnder_edgeSet)
  show "(0, 0) \<in> edgeSet lineMask" unfolding edgeSet_lineMask by simp
qed simp

lemma lineMask_trace:
  assumes res: "traceLoop lineMask [(0, 0)] [] {} = (st', c', v')"
  shows "st' \<noteq> []" "length c' = 1000" "\<not> edgeSet lineMask \<subseteq> v'"
proof -
  have s: "(0, 0) \<in> edgeSet lineMask" unfolding edgeSet_lineMask by simp
  have vis: "distinct c'" "set c' = {p \<in> v' - {}. isEdgePixel lineMask p}"
    using traceLoop_visited[OF res] by simp_all
  have len: "length c' \<le> 1000" "st' \<noteq> [] \<longrightarrow> length c' = 1000"
    using traceLoop_length[OF res] by simp_all
  have card: "card (set c') \<le> 1000"
    using len(1) vis(1) by (simp add: distinct_card)
  show ne: "st' \<noteq> []"
  proof
    assume "st' = []"
    then have "component lineMask (0, 0) \<subseteq> set c'"
      using trace_complete[OF res s _ closedUnder_empty] by simp
    then have "card (edgeSet lineMask) \<le> card (set c')"
      unfolding component_lineMask by (intro card_mono) simp_all
    then show False using card card_lineMask by simp
  qed
  then show "length c' = 1000" using len(2) by simp
  show "\<not> edgeSet lineMask \<subseteq> v'"
  proof
    assume "edgeSet lineMask \<subseteq> v'"
    then have "edgeSet lineMask \<subseteq> set c'"
      using vis(2) by (auto simp: edgeSet_def)
    then have "card (edgeSet lineMask) \<le> card (set c')"
      by (intro card_mono) simp_all
    then show False using card card_lineMask by simp
  qed
qed

text \<open>
  Claim C2, as stated, fails. On \<open>lineMask\<close>, a row of 1001 edge pixels that are all
  reachable from \<open>(0, 0)\<close>, the trace from \<open>(0, 0)\<close> reaches the cap of 1000 points, and it
  leaves a pixel of that region unvisited; the raster scan visits it later.
\<close>

theorem cap_leaves_reachable_pixels_unvisited:
  "length (fst (traceContour lineMask 0 0 {})) = 1000 \<and>
   component lineMask (0, 0) = edgeSet lineMask \<and>
   \<not> component lineMask (0, 0) \<subseteq> snd (traceContour lineMask 0 0 {}) \<and>
   component lineMask (0, 0) \<subseteq> snd (scanAll lineMask)"
proof -
  obtain st' c' v' where res: "traceLoop lineMask [(0, 0)] [] {} = (st', c', v')"
    by (cases "traceLoop lineMask [(0, 0)] [] {}") auto
  have "traceContour lineMask 0 0 {} = (c', v')"
    by (simp add: traceContour_def res)
  then show ?thesis
    using lineMask_trace[OF res] component_lineMask scanAll_visits_edges[of lineMask] by simp
qed

text \<open>
  Claim C2, amended. A trace never collects more than 1000 points, and a trace that stops
  with pixels still on its stack has collected exactly 1000. The edge pixels the trace
  has marked visited are exactly the points of its region: no edge pixel is left visited
  but unassigned, so the edge pixels still reachable from a capped region stay unvisited.
  The raster scan visits every edge pixel of the mask.
\<close>

theorem trace_cap_amended:
  assumes "traceLoop e [(x, y)] [] v = (st', c', v')"
  shows "length c' \<le> 1000 \<and> (st' \<noteq> [] \<longrightarrow> length c' = 1000) \<and>
         set c' = {p \<in> v' - v. isEdgePixel e p} \<and> v \<subseteq> v' \<and>
         edgeSet e \<subseteq> snd (scanAll e)"
  using traceLoop_length[OF assms] traceLoop_visited[OF assms] scanAll_visits_edges[of e]
  by simp

theorem trace_cap_amended_witness:
  "fst (traceLoop lineMask [(0, 0)] [] {}) \<noteq> [] \<and>
   length (fst (snd (traceLoop lineMask [(0, 0)] [] {}))) = 1000 \<and>
   set (fst (snd (traceLoop lineMask [(0, 0)] [] {}))) =
     {p \<in> snd (snd (traceLoop lineMask [(0, 0)] [] {})) - {}. isEdgePixel lineMask p} \<and>
   \<not> edgeSet lineMask \<subseteq> snd (snd (traceLoop lineMask [(0, 0)] [] {})) \<and>
   edgeSet lineMask \<subseteq> snd (scanAll lineMask)"
proof -
  obtain st' c' v' where res: "traceLoop lineMask [(0, 0)] [] {} = (st', c', v')"
    by (cases "traceLoop lineMask [(0, 0)] [] {}") auto
  show ?thesis
    using trace_cap_amended[OF res] lineMask_trace[OF res] by (simp add: res)
qed

text \<open>
  Claim C5. Every contour that \<open>findContours\<close> emits has more than 10 and at most 1000
  points. A trace has at most 1000 points, and exactly 1000 when it stops with pixels
  still on its stack (stopped by the cap). The scan appends the traced region when it
  has more than 10 points and discards it otherwise.
\<close>

theorem emitted_contour_sizes:
  "(\<forall>c\<in>set (findContours e). 10 < length c \<and> length c \<le> 1000) \<and>
   (traceLoop e [(x, y)] [] v = (st', c', v') \<longrightarrow>
      length c' \<le> 1000 \<and>
      (st' \<noteq> [] \<longrightarrow> length c' = 1000) \<and>
      ((x, y) \<notin> v \<and> isEdgePixel e (x, y) \<longrightarrow>
         scanPixel e y x (cs, v) = (if 10 < length c' then cs @ [c'] else cs, v')))"
  using scanAll_contours[of e] traceLoop_length[of e "[(x, y)]" "[]" v st' c' v']
    scanPixel_trace[of x y v e st' c' v' cs]
  by (simp add: findContours_def)

lemma shortLine_contours: "findContours shortLine = [map (\<lambda>i. (i, 0)) [0..11]]"
  by code_simp

lemma tinyLine_trace:
  "traceLoop tinyLine [(0, 0)] [] {} = ([], [(0, 0), (1, 0), (2, 0)], {(0, 0), (1, 0), (2, 0)})"
  by code_simp

lemma tinyLine_edge: "isEdgePixel tinyLine (0, 0)"
  by code_simp

theorem emitted_contour_sizes_witness:
  "map (\<lambda>i. (i, 0)) [0..11] \<in> set (findContours shortLine) \<and>
   10 < length (map (\<lambda>i. (i, 0 :: int)) [0..11]) \<and>
   length (map (\<lambda>i. (i, 0 :: int)) [0..11]) \<le> 1000 \<and>
   fst (traceLoop lineMask [(0, 0)] [] {}) \<noteq> [] \<and>
   length (fst (snd (traceLoop lineMask [(0, 0)] [] {}))) = 1000 \<and>
   traceLoop tinyLine [(0, 0)] [] {} = ([], [(0, 0), (1, 0), (2, 0)], {(0, 0), (1, 0), (2, 0)}) \<and>
   scanPixel tinyLine 0 0 ([], {}) = ([], {(0, 0), (1, 0), (2, 0)})"
proof -
  obtain st' c' v' where res: "traceLoop lineMask [(0, 0)] [] {} = (st', c', v')"
    by (cases "traceLoop lineMask [(0, 0)] [] {}") auto
  have a: "map (\<lambda>i. (i, 0)) [0..11] \<in> set (findContours shortLine)"
    by (simp add: shortLine_contours)
  have "10 < length (map (\<lambda>i. (i, 0 :: int)) [0..11]) \<and>
      length (map (\<lambda>i. (i, 0 :: int)) [0..11]) \<le> 1000"
    using emitted_contour_sizes[of shortLine] a by blast
  moreover have "st' \<noteq> [] \<longrightarrow> length c' = 1000"
    using emitted_contour_sizes[of lineMask 0 0 "{}" st' c' v'] res by blast
  moreover have "scanPixel tinyLine 0 0 ([], {}) = ([], {(0, 0), (1, 0), (2, 0)})"
    using emitted_contour_sizes[of tinyLine 0 0 "{}" "[]" "[(0, 0), (1, 0), (2, 0)]"
        "{(0, 0), (1, 0), (2, 0)}" "[]"] tinyLine_trace tinyLine_edge
    by simp
  ultimately show ?thesis
    using a lineMask_trace(1)[OF res] tinyLine_trace by (simp add: res)
qed

text \<open>
  Claim C9. When the edge pixels of a mask are two 8-connected blobs, of 50 and of 5
  pixels, with no pixel of one adjacent to a pixel of the other, \<open>findContours\<close> returns
  exactly one contour; its points are the pixels of the 50-pixel blob, each once.
\<close>

theorem two_blobs_one_contour:
  assumes edges: "edgeSet e = B50 \<union> B5"
    and cards: "card B50 = 50" "card B5 = 5"
    and conn: "connected8 B50" "connected8 B5"
    and sep: "\<forall>p\<in>B50. \<forall>q\<in>B5. \<not> adjacent p q"
  shows "\<exists>c. findContours e = [c] \<and> set c = B50 \<and> distinct c"
proof -
  have clo50: "closedUnder e B50"
    unfolding closedUnder_def edgeAdj_def adjIn_def edges using sep by auto
  have sep': "\<not> adjacent q p" if "p \<in> B50" "q \<in> B5" for p q
    using sep that adjacent_sym by blast
  have clo5: "closedUnder e B5"
    unfolding closedUnder_def edgeAdj_def adjIn_def edges using sep' by auto
  have c50: "component e p = B50" if "p \<in> B50" for p
    using conn(1) _ clo50 that by (rule component_blob) (simp add: edges)
  have c5: "component e p = B5" if "p \<in> B5" for p
    using conn(2) _ clo5 that by (rule component_blob) (simp add: edges)
  have small: "\<forall>p\<in>edgeSet e. card (component e p) < 1000"
    unfolding edges using c50 c5 cards by auto
  have "B50 \<noteq> {}"
    using cards(1) by auto
  then obtain p0 where p0: "p0 \<in> B50"
    by blast
  have "{p \<in> edgeSet e \<inter> edgeSet e. 10 < card (component e p)} = B50"
    unfolding edges using c50 c5 cards by auto
  then have big: "bigComponents e (edgeSet e) = {B50}"
    unfolding bigComponents_def using c50 p0 by auto
  have fc: "distinct (map set (findContours e))" "set (map set (findContours e)) = {B50}"
    "\<forall>c\<in>set (findContours e). distinct c"
    using scanAll_components[OF small] big by simp_all
  have "length (map set (findContours e)) = card {B50}"
    using fc(1,2) distinct_card by fastforce
  then have "length (findContours e) = 1" by simp
  then obtain c where c: "findContours e = [c]"
    by (cases "findContours e") auto
  then show ?thesis using fc(2,3) by auto
qed

lemma edgeSet_twoBlobs: "edgeSet twoBlobs = {0..49} \<times> {0} \<union> {0..4} \<times> {2}"
  unfolding twoBlobs_def edgeSet_maskOf by (auto simp: inBounds_def maskOf_def)

theorem two_blobs_one_contour_witness:
  "edgeSet twoBlobs = {0..49} \<times> {0} \<union> {0..4} \<times> {2} \<and>
   card ({0..49 :: int} \<times> {0 :: int}) = 50 \<and> card ({0..4 :: int} \<times> {2 :: int}) = 5 \<and>
   (\<exists>c. findContours twoBlobs = [c] \<and> set c = {0..49} \<times> {0} \<and> distinct c)"
proof -
  have sep: "\<forall>p\<in>{0..49} \<times> {0}. \<forall>q\<in>{0..4} \<times> {2}. \<not> adjacent p q"
    by (auto simp: adjacent_def)
  have cards: "card ({0..49 :: int} \<times> {0 :: int}) = 50" "card ({0..4 :: int} \<times> {2 :: int}) = 5"
    by (simp_all add: card_cartesian_product)
  show ?thesis
    using two_blobs_one_contour[OF edgeSet_twoBlobs cards connected8_hseg connected8_hseg sep]
      edgeSet_twoBlobs cards by simp
qed

section \<open>Edge Detector: proofs\<close>

lemma setByte_length: "length (setByte d i v) = length d"
  by (simp add: setByte_def)

lemma setByte_nth:
  "0 \<le> j \<Longrightarrow> setByte d i v ! nat j = (if j = i \<and> i < int (length d) then v else d ! nat j)"
  by (auto simp: setByte_def nth_list_update)

lemma detectEdgesPixel_length: "length (detectEdgesPixel d w y x e) = length e"
  by (simp add: detectEdgesPixel_def Let_def setByte_length)

lemma detectEdgesPixel_red:
  assumes "0 \<le> m" "0 \<le> y * w + x" "(y * w + x) * 4 < int (length e)"
  shows "detectEdgesPixel d w y x e ! nat (m * 4) =
     (if m = y * w + x then edgeValueAt d x y w else e ! nat (m * 4))"
proof -
  have m4: "0 \<le> m * 4" using assms(1) by simp
  have ne: "m * 4 \<noteq> (y * w + x) * 4 + 1" "m * 4 \<noteq> (y * w + x) * 4 + 2"
    "m * 4 \<noteq> (y * w + x) * 4 + 3"
    by presburger+
  show ?thesis
    unfolding detectEdgesPixel_def Let_def
    using assms(3) ne by (simp add: setByte_nth[OF m4] setByte_length)
qed

lemma pixel_mod_div:
  fixes x y w :: int
  assumes "0 \<le> x" "x < w"
  shows "(y * w + x) mod w = x" "(y * w + x) div w = y"
  using assms by simp_all

lemma pixel_index_inj:
  fixes x y w x' y' :: int
  assumes "0 \<le> x" "x < w" "0 \<le> x'" "x' < w" "y * w + x = y' * w + x'"
  shows "x = x' \<and> y = y'"
proof -
  have "x = (y * w + x) mod w" "y = (y * w + x) div w"
    using pixel_mod_div[OF assms(1,2)] by simp_all
  moreover have "x' = (y' * w + x') mod w" "y' = (y' * w + x') div w"
    using pixel_mod_div[OF assms(3,4)] by simp_all
  ultimately show ?thesis
    using assms(5) by metis
qed

lemma row_fold:
  assumes xs: "\<forall>x\<in>set xs. 0 \<le> x \<and> x < w" and y: "0 \<le> y" "y < h"
    and len: "int (length e) = 4 * w * h"
  shows "length (fold (detectEdgesPixel d w y) xs e) = length e \<and>
     (\<forall>x' y'. 0 \<le> x' \<and> x' < w \<and> 0 \<le> y' \<longrightarrow>
        fold (detectEdgesPixel d w y) xs e ! nat ((y' * w + x') * 4) =
          (if y' = y \<and> x' \<in> set xs then edgeValueAt d x' y w
           else e ! nat ((y' * w + x') * 4)))"
  using xs len
proof (induction xs arbitrary: e)
  case Nil
  show ?case by simp
next
  case (Cons x xs)
  let ?e = "detectEdgesPixel d w y x e"
  have x: "0 \<le> x" "x < w" using Cons.prems(1) by simp_all
  note pi = pixel_index[OF x y]
  have le: "int (length ?e) = 4 * w * h"
    using Cons.prems(2) by (simp add: detectEdgesPixel_length)
  have IH: "length (fold (detectEdgesPixel d w y) xs ?e) = length ?e \<and>
     (\<forall>x' y'. 0 \<le> x' \<and> x' < w \<and> 0 \<le> y' \<longrightarrow>
        fold (detectEdgesPixel d w y) xs ?e ! nat ((y' * w + x') * 4) =
          (if y' = y \<and> x' \<in> set xs then edgeValueAt d x' y w
           else ?e ! nat ((y' * w + x') * 4)))"
    using Cons.prems(1) le by (intro Cons.IH) simp_all
  have idx: "(y * w + x) * 4 < int (length e)"
    using pi(2) Cons.prems(2) by simp
  have step: "?e ! nat ((y' * w + x') * 4) =
      (if y' = y \<and> x' = x then edgeValueAt d x y w else e ! nat ((y' * w + x') * 4))"
    if "0 \<le> x'" "x' < w" "0 \<le> y'" for x' y'
  proof -
    have w: "0 < w" using x by linarith
    have "0 \<le> y' * w" using that w by (intro mult_nonneg_nonneg) simp_all
    then have m: "0 \<le> y' * w + x'" using that by linarith
    have "(y' * w + x' = y * w + x) = (y' = y \<and> x' = x)"
      using pixel_index_inj[OF that(1,2) x, of y' y] by auto
    then show ?thesis
      using detectEdgesPixel_red[OF m pi(1) idx, of d] by simp
  qed
  show ?case
    using IH step by (auto simp: detectEdgesPixel_length)
qed

lemma rows_fold:
  assumes xs: "\<forall>x\<in>set xs. 0 \<le> x \<and> x < w" and ys: "\<forall>y\<in>set ys. 0 \<le> y \<and> y < h"
    and len: "int (length e) = 4 * w * h"
  shows "length (fold (\<lambda>y e. fold (detectEdgesPixel d w y) xs e) ys e) = length e \<and>
     (\<forall>x' y'. 0 \<le> x' \<and> x' < w \<and> 0 \<le> y' \<longrightarrow>
        fold (\<lambda>y e. fold (detectEdgesPixel d w y) xs e) ys e ! nat ((y' * w + x') * 4) =
          (if y' \<in> set ys \<and> x' \<in> set xs then edgeValueAt d x' y' w
           else e ! nat ((y' * w + x') * 4)))"
  using ys len
proof (induction ys arbitrary: e)
  case Nil
  show ?case by simp
next
  case (Cons y ys)
  let ?e = "fold (detectEdgesPixel d w y) xs e"
  have y: "0 \<le> y" "y < h" using Cons.prems(1) by simp_all
  note row = row_fold[OF xs y Cons.prems(2), of d]
  have le: "int (length ?e) = 4 * w * h"
    using row Cons.prems(2) by simp
  have IH: "length (fold (\<lambda>y e. fold (detectEdgesPixel d w y) xs e) ys ?e) = length ?e \<and>
     (\<forall>x' y'. 0 \<le> x' \<and> x' < w \<and> 0 \<le> y' \<longrightarrow>
        fold (\<lambda>y e. fold (detectEdgesPixel d w y) xs e) ys ?e ! nat ((y' * w + x') * 4) =
          (if y' \<in> set ys \<and> x' \<in> set xs then edgeValueAt d x' y' w
           else ?e ! nat ((y' * w + x') * 4)))"
    using Cons.prems(1) le by (intro Cons.IH) simp_all
  show ?case
    using IH row by auto
qed

lemma detectEdges_dims:
  "width (detectEdges img) = width img" "height (detectEdges img) = height img"
  by (simp_all add: detectEdges_def Let_def)

lemma inBounds_detectEdges: "inBounds (detectEdges img) p = inBounds img p"
  by (simp add: inBounds_def detectEdges_dims)

lemma detectEdges_data:
  assumes wf: "wfImageData img" and b: "inBounds img (x, y)"
  shows "int (length (data (detectEdges img))) = 4 * width img * height img"
    and "byteAt (data (detectEdges img)) ((y * width img + x) * 4) =
      Some (if interior img (x, y) then edgeValueAt (data img) x y (width img) else 0)"
proof -
  let ?w = "width img" and ?h = "height img"
  let ?e0 = "replicate (nat (4 * ?w * ?h)) (0 :: int)"
  let ?r = "fold (\<lambda>y e. fold (detectEdgesPixel (data img) ?w y) [1..?w - 2] e) [1..?h - 2] ?e0"
  have pos: "0 < ?w" "0 < ?h" using wf by (simp_all add: wfImageData_def)
  have b': "0 \<le> x" "x < ?w" "0 \<le> y" "y < ?h" using b by (simp_all add: inBounds_def)
  have "0 \<le> 4 * ?w * ?h" using pos by simp
  then have len0: "int (length ?e0) = 4 * ?w * ?h" by simp
  have rf: "length ?r = length ?e0 \<and>
     (\<forall>x' y'. 0 \<le> x' \<and> x' < ?w \<and> 0 \<le> y' \<longrightarrow>
        ?r ! nat ((y' * ?w + x') * 4) =
          (if y' \<in> set [1..?h - 2] \<and> x' \<in> set [1..?w - 2] then edgeValueAt (data img) x' y' ?w
           else ?e0 ! nat ((y' * ?w + x') * 4)))"
    by (rule rows_fold[OF _ _ len0]) simp_all
  have dd: "data (detectEdges img) = ?r"
    by (simp add: detectEdges_def Let_def)
  show l: "int (length (data (detectEdges img))) = 4 * ?w * ?h"
    unfolding dd using rf len0 by simp
  note pi = pixel_index[OF b']
  have i4: "0 \<le> (y * ?w + x) * 4" "(y * ?w + x) * 4 < 4 * ?w * ?h"
    using pi(1,2) by simp_all
  have "nat ((y * ?w + x) * 4) < nat (4 * ?w * ?h)"
    using i4 by (simp only: nat_less_eq_zless)
  then have z: "?e0 ! nat ((y * ?w + x) * 4) = 0"
    by simp
  have "?r ! nat ((y * ?w + x) * 4) =
      (if interior img (x, y) then edgeValueAt (data img) x y ?w else 0)"
    using rf b' z by (auto simp: interior_def)
  then show "byteAt (data (detectEdges img)) ((y * ?w + x) * 4) =
      Some (if interior img (x, y) then edgeValueAt (data img) x y ?w else 0)"
    unfolding byteAt_def using i4 l dd by simp
qed


lemma edgeValueAt_range: "edgeValueAt d x y w = 255 \<or> edgeValueAt d x y w = 0"
  by (simp add: edgeValueAt_def split: option.splits)

lemma isEdgePixel_detectEdges:
  assumes wf: "wfImageData img" and b: "inBounds img (x, y)"
  shows "isEdgePixel (detectEdges img) (x, y) \<longleftrightarrow>
     interior img (x, y) \<and> edgeValueAt (data img) x y (width img) = 255"
  using detectEdges_data(2)[OF wf b] edgeValueAt_range[of "data img" x y "width img"]
  by (auto simp: isEdgePixel_def detectEdges_dims)







lemma sqrt_gt_50: "sqrt a > 50 \<longleftrightarrow> a > 2500"
proof -
  have "sqrt 2500 = sqrt (50\<^sup>2)" by simp
  then have "sqrt 2500 = 50" by (simp only: real_sqrt_abs abs_numeral)
  then have "(50 < sqrt a) = (sqrt 2500 < sqrt a)" by simp
  then show ?thesis by (simp only: real_sqrt_less_iff)
qed

lemma edgeValueAt_code [code]:
  "edgeValueAt d x y w =
     (case sobelGx d x y w of
        None \<Rightarrow> 0
      | Some gx \<Rightarrow>
          (case sobelGy d x y w of
             None \<Rightarrow> 0
           | Some gy \<Rightarrow> if gx * gx + gy * gy > 2500 then 255 else 0))"
  by (simp add: edgeValueAt_def magnitudeAt_def sqrt_gt_50 split: option.splits)

lemma wf_maskOf: "0 < w \<Longrightarrow> 0 < h \<Longrightarrow> wfImageData (maskOf w h P)"
proof -
  assume "0 < w" "0 < h"
  then have "0 \<le> w * h" by simp
  then have "int (4 * nat (w * h)) = 4 * w * h" by simp
  then show ?thesis
    using concat_quads(1)[of "\<lambda>i. if P (int i mod w, int i div w)
        then [255, 255, 255, 255] else [0, 0, 0, 255 :: int]" "[0..<nat (w * h)]"] \<open>0 < w\<close> \<open>0 < h\<close>
    by (simp add: wfImageData_def maskOf_def)
qed

lemma stripes_edges: "findContours (detectEdges stripes) = [map (\<lambda>i. (i, 1)) [1..12]]"
  by code_simp



text \<open>
  Claim C10. Every point of every contour that \<open>findContours\<close> emits on the mask of
  \<open>detectEdges\<close> lies strictly inside the 1-pixel border of the image, and no point
  occurs twice in a contour.
\<close>

theorem contour_points_interior_distinct:
  assumes "wfImageData img" "c \<in> set (findContours (detectEdges img))"
  shows "distinct c \<and>
         (\<forall>p\<in>set c. 1 \<le> fst p \<and> fst p \<le> width img - 2 \<and> 1 \<le> snd p \<and> snd p \<le> height img - 2)"
proof -
  have c: "distinct c" "set c \<subseteq> edgeSet (detectEdges img)"
    using scanAll_contours[of "detectEdges img"] assms(2) by (auto simp: findContours_def)
  have "interior img p" if "p \<in> set c" for p
  proof -
    have p: "inBounds img p" "isEdgePixel (detectEdges img) p"
      using c(2) that by (auto simp: edgeSet_def inBounds_detectEdges)
    then show ?thesis
      using isEdgePixel_detectEdges[OF assms(1), of "fst p" "snd p"] by simp
  qed
  then show ?thesis
    using c(1) by (simp add: interior_def)
qed

theorem contour_points_interior_distinct_witness:
  "wfImageData stripes \<and> map (\<lambda>i. (i, 1)) [1..12] \<in> set (findContours (detectEdges stripes)) \<and>
   distinct (map (\<lambda>i. (i, 1 :: int)) [1..12]) \<and>
   (12, 1) \<in> set (map (\<lambda>i. (i, 1)) [1..12]) \<and>
   (1 :: int) \<le> fst (12 :: int, 1 :: int) \<and> fst (12 :: int, 1 :: int) \<le> width stripes - 2 \<and>
   (1 :: int) \<le> snd (12 :: int, 1 :: int) \<and> snd (12 :: int, 1 :: int) \<le> height stripes - 2"
proof -
  have wf: "wfImageData stripes"
    unfolding stripes_def by (rule wf_maskOf) simp_all
  have m: "map (\<lambda>i. (i, 1)) [1..12] \<in> set (findContours (detectEdges stripes))"
    by (simp add: stripes_edges)
  have p: "(12, 1) \<in> set (map (\<lambda>i. (i, 1)) [1..12])"
    by simp
  note t = contour_points_interior_distinct[OF wf m]
  have d: "distinct (map (\<lambda>i. (i, 1 :: int)) [1..12])"
    using t by (rule conjunct1)
  have "(1 :: int) \<le> fst (12 :: int, 1 :: int) \<and> fst (12 :: int, 1 :: int) \<le> width stripes - 2 \<and>
      (1 :: int) \<le> snd (12 :: int, 1 :: int) \<and> snd (12 :: int, 1 :: int) \<le> height stripes - 2"
    using conjunct2[OF t] p by (rule bspec)
  with wf m d p show ?thesis
    by (intro conjI) (erule conjE | assumption)+
qed

section \<open>Rasterizer and entry point: proofs\<close>



lemma canvas_after_resize:
  "(setCanvasHeight (setCanvasWidth c (real (imgWidth P img) * s)) (real (imgHeight P img) * s))
     \<lparr>bitmap := drawImage P img
         (canvasWidth (setCanvasHeight (setCanvasWidth c (real (imgWidth P img) * s)) (real (imgHeight P img) * s)))
         (canvasHeight (setCanvasHeight (setCanvasWidth c (real (imgWidth P img) * s)) (real (imgHeight P img) * s)))
         (bitmap (setCanvasHeight (setCanvasWidth c (real (imgWidth P img) * s)) (real (imgHeight P img) * s)))\<rparr> =
   \<lparr>canvasWidth = toUnsignedLong (real (imgWidth P img) * s),
    canvasHeight = toUnsignedLong (real (imgHeight P img) * s),
    bitmap = drawImage P img (toUnsignedLong (real (imgWidth P img) * s))
               (toUnsignedLong (real (imgHeight P img) * s))
               (replicate (nat (4 * toUnsignedLong (real (imgWidth P img) * s) *
                  toUnsignedLong (real (imgHeight P img) * s))) 0)\<rparr>"
  by (simp add: setCanvasWidth_def setCanvasHeight_def)

lemma analyzeFloorPlan_eq:
  "analyzeFloorPlan P c img =
     (case getImageData (scaledCanvas P img) of
        Inl err \<Rightarrow> (Inl err, scaledCanvas P img)
      | Inr imageData \<Rightarrow>
          (Inr \<lparr>walls = walls (classifyContours (findContours (detectEdges imageData))
                          (scaledWidth P img) (scaledHeight P img)),
                doors = doors (classifyContours (findContours (detectEdges imageData))
                          (scaledWidth P img) (scaledHeight P img)),
                windows = windows (classifyContours (findContours (detectEdges imageData))
                          (scaledWidth P img) (scaledHeight P img)),
                rooms = rooms (classifyContours (findContours (detectEdges imageData))
                          (scaledWidth P img) (scaledHeight P img)),
                scale = computeScale (imgWidth P img) (imgHeight P img),
                imageWidth = scaledWidth P img, imageHeight = scaledHeight P img\<rparr>,
           scaledCanvas P img))"
proof -
  have "analyzeFloorPlan P c img =
     (let scale = computeScale (imgWidth P img) (imgHeight P img);
          c3 = scaledCanvas P img
      in case getImageData c3 of
           Inl err \<Rightarrow> (Inl err, c3)
         | Inr imageData \<Rightarrow>
             (let edges = detectEdges imageData;
                  contours = findContours edges;
                  classified = classifyContours contours (canvasWidth c3) (canvasHeight c3)
              in (Inr \<lparr>walls = walls classified, doors = doors classified,
                       windows = windows classified, rooms = rooms classified,
                       scale = scale, imageWidth = canvasWidth c3,
                       imageHeight = canvasHeight c3\<rparr>, c3)))"
    unfolding analyzeFloorPlan_def Let_def canvas_after_resize
    by (simp only: scaledCanvas_def scaledWidth_def scaledHeight_def)
  moreover have "canvasWidth (scaledCanvas P img) = scaledWidth P img"
    "canvasHeight (scaledCanvas P img) = scaledHeight P img"
    by (simp_all add: scaledCanvas_def)
  ultimately show ?thesis
    by (simp add: Let_def cong: sum.case_cong)
qed


lemma analyzeFloorPlan_canvas_free: "analyzeFloorPlan P c1 img = analyzeFloorPlan P c2 img"
  by (simp only: analyzeFloorPlan_eq)











text \<open>
  Claim C8. The outcome of \<open>processImage\<close> does not depend on the canvas state in which
  the processor is called; in particular a second call on the same input, in the state
  the first call has left, yields the same outcome as the first.
\<close>

theorem processImage_deterministic:
  "fst (processImage P c1 file) = fst (processImage P c2 file) \<and>
   fst (processImage P (snd (processImage P c1 file)) file) = fst (processImage P c1 file)"
proof -
  have "fst (processImage P a file) = fst (processImage P b file)" for a b
    unfolding processImage_def
    by (cases "decode P file") (simp_all add: analyzeFloorPlan_canvas_free[of P a _ b])
  then show ?thesis by blast
qed

end
